theory Spec2Isabelle
  imports Main "HOL-Library.Product_Lexorder"
begin

section \<open>The delegation lock\<close>

text \<open>
  \<^verbatim>\<open>DelegationLock\<close> owns a queue of tasks, a mutex and condition variable guarding the
  queue, the atomic flag \<^verbatim>\<open>running\<close> and one executor thread running \<^verbatim>\<open>worker()\<close>.

  A task is a closure \<^verbatim>\<open>function<void()>\<close> with the \<^verbatim>\<open>promise<void>\<close> it completes. The
  closure acts on the state it protects (type \<open>'s\<close>); the call either returns, giving the
  new state, or throws (\<open>None\<close>). A promise is named by a number: \<^verbatim>\<open>async\<close> creates the
  promises one after the other, so the number is the position of the submission.
\<close>

record 's Task =
  work :: "'s \<Rightarrow> 's option"
  completion :: nat

text \<open>
  The program points of \<^verbatim>\<open>worker()\<close>, one for each access to the shared state:
  \<^item> \<open>W_loop\<close>: the test \<^verbatim>\<open>while (running)\<close>, then \<^verbatim>\<open>unique_lock lock(queueMutex)\<close>;
  \<^item> \<open>W_wait\<close>: the predicate of \<^verbatim>\<open>queueCV.wait\<close>, evaluated with the mutex held;
  \<^item> \<open>W_sleep\<close>: the predicate was false, the thread is about to block;
  \<^item> \<open>W_blocked\<close>: blocked in \<^verbatim>\<open>wait\<close>, the mutex released, until a notification;
  \<^item> \<open>W_check\<close>: \<^verbatim>\<open>if (!running) break;\<close>
  \<^item> \<open>W_dequeue\<close>: \<^verbatim>\<open>front()\<close>, \<^verbatim>\<open>pop()\<close>, \<^verbatim>\<open>lock.unlock()\<close>;
  \<^item> \<open>W_work\<close>: \<^verbatim>\<open>task.work()\<close>;
  \<^item> \<open>W_resolve\<close>: \<^verbatim>\<open>task.completion.set_value()\<close>;
  \<^item> \<open>W_exited\<close>: \<^verbatim>\<open>worker()\<close> has returned;
  \<^item> \<open>W_terminated\<close>: an exception left \<^verbatim>\<open>worker()\<close>, which is the start function of a
    \<^verbatim>\<open>std::thread\<close>: \<^verbatim>\<open>std::terminate\<close> ends the program;
  \<^item> \<open>W_undefined\<close>: \<^verbatim>\<open>front()\<close> on an empty queue.
\<close>

datatype wpc =
  W_loop | W_wait | W_sleep | W_blocked | W_check | W_dequeue | W_work | W_resolve
  | W_exited | W_terminated | W_undefined

text \<open>
  Beside the fields of the class, the state holds the local variable \<^verbatim>\<open>task\<close> of the
  executor, the state the closures act on, the number of promises created, and two logs:
  the promises whose closure has been called and the promises that \<^verbatim>\<open>set_value\<close> has
  resolved, each in the order it happened.
\<close>

record 's DelegationLock =
  taskQueue :: "'s Task list"
  running :: bool
  wpc :: wpc
  task :: "'s Task option"
  protected :: 's
  promises :: nat
  executed :: "nat list"
  resolved :: "nat list"

text \<open>The constructor: \<^verbatim>\<open>running(true)\<close>, an empty queue, the executor at the top of its loop.\<close>

definition DelegationLock_new :: "'s \<Rightarrow> 's DelegationLock" where
  "DelegationLock_new p =
     \<lparr>taskQueue = [], running = True, wpc = W_loop, task = None, protected = p,
      promises = 0, executed = [], resolved = []\<rparr>"

text \<open>The executor holds \<^verbatim>\<open>queueMutex\<close> from the construction of \<^verbatim>\<open>lock\<close> until it blocks,
  breaks or unlocks.\<close>

definition mutex_held :: "'s DelegationLock \<Rightarrow> bool" where
  "mutex_held s = (wpc s = W_wait \<or> wpc s = W_sleep \<or> wpc s = W_check \<or> wpc s = W_dequeue)"

text \<open>\<^verbatim>\<open>queueCV.notify_one()\<close> wakes the executor if it is blocked; it then evaluates the
  predicate again.\<close>

definition notify_one :: "'s DelegationLock \<Rightarrow> 's DelegationLock" where
  "notify_one s = (if wpc s = W_blocked then s\<lparr>wpc := W_wait\<rparr> else s)"

text \<open>\<^verbatim>\<open>async\<close>: a new task with a new promise is pushed at the back of the queue, under the
  mutex, and the executor is notified. The result is the future (the promise's number)
  and the new state.\<close>

definition async :: "('s \<Rightarrow> 's option) \<Rightarrow> 's DelegationLock \<Rightarrow> nat \<times> 's DelegationLock" where
  "async w s =
     (promises s,
      notify_one (s\<lparr>taskQueue := taskQueue s @ [\<lparr>work = w, completion = promises s\<rparr>],
                    promises := Suc (promises s)\<rparr>))"

text \<open>One step of \<^verbatim>\<open>worker()\<close>.\<close>

definition worker :: "'s DelegationLock \<Rightarrow> 's DelegationLock" where
  "worker s =
     (case wpc s of
        W_loop \<Rightarrow> if running s then s\<lparr>wpc := W_wait\<rparr> else s\<lparr>wpc := W_exited\<rparr>
      | W_wait \<Rightarrow>
          if taskQueue s \<noteq> [] \<or> \<not> running s then s\<lparr>wpc := W_check\<rparr> else s\<lparr>wpc := W_sleep\<rparr>
      | W_sleep \<Rightarrow> s\<lparr>wpc := W_blocked\<rparr>
      | W_blocked \<Rightarrow> s
      | W_check \<Rightarrow> if \<not> running s then s\<lparr>wpc := W_exited\<rparr> else s\<lparr>wpc := W_dequeue\<rparr>
      | W_dequeue \<Rightarrow>
          (case taskQueue s of
             [] \<Rightarrow> s\<lparr>wpc := W_undefined\<rparr>
           | t # q \<Rightarrow> s\<lparr>task := Some t, taskQueue := q, wpc := W_work\<rparr>)
      | W_work \<Rightarrow>
          (case task s of
             None \<Rightarrow> s\<lparr>wpc := W_undefined\<rparr>
           | Some t \<Rightarrow>
               (case work t (protected s) of
                  None \<Rightarrow> s\<lparr>executed := executed s @ [completion t], wpc := W_terminated\<rparr>
                | Some p \<Rightarrow>
                    s\<lparr>protected := p, executed := executed s @ [completion t],
                      wpc := W_resolve\<rparr>))
      | W_resolve \<Rightarrow>
          (case task s of
             None \<Rightarrow> s\<lparr>wpc := W_undefined\<rparr>
           | Some t \<Rightarrow> s\<lparr>resolved := resolved s @ [completion t], task := None, wpc := W_loop\<rparr>)
      | W_exited \<Rightarrow> s
      | W_terminated \<Rightarrow> s
      | W_undefined \<Rightarrow> s)"

text \<open>
  What the threads of the program do to the lock, one event for each atomic action:
  a client calls \<^verbatim>\<open>async\<close> (it cannot enter while the executor holds the mutex, and then
  nothing happens until it is scheduled again); the destructor stores \<^verbatim>\<open>running = false\<close>
  and, as a second action, calls \<^verbatim>\<open>notify_one\<close>, both without the mutex; the executor
  takes a step. After \<^verbatim>\<open>std::terminate\<close> nothing happens any more.
\<close>

datatype 's event = Submit "'s \<Rightarrow> 's option" | Stop | Notify | Worker

definition dl_step :: "'s event \<Rightarrow> 's DelegationLock \<Rightarrow> 's DelegationLock" where
  "dl_step e s =
     (if wpc s = W_terminated then s
      else case e of
        Submit w \<Rightarrow> if mutex_held s then s else snd (async w s)
      | Stop \<Rightarrow> s\<lparr>running := False\<rparr>
      | Notify \<Rightarrow> notify_one s
      | Worker \<Rightarrow> worker s)"

fun dl_run :: "'s event list \<Rightarrow> 's DelegationLock \<Rightarrow> 's DelegationLock" where
  "dl_run [] s = s"
| "dl_run (e # es) s = dl_run es (dl_step e s)"




section \<open>The bakery lock and its verification harness\<close>

text \<open>
  The program with the verification harness keeps the lock in global arrays:
  \<^verbatim>\<open>std::atomic<bool> choosing[MAX_THREADS]\<close>, \<^verbatim>\<open>std::atomic<int> number[MAX_THREADS]\<close>,
  and the verification data \<^verbatim>\<open>shared_counter\<close>, \<^verbatim>\<open>inside_critical_section_count\<close> and
  \<^verbatim>\<open>mutual_exclusion_violated\<close>. Each is an atomic object; every access to one names its
  \<^verbatim>\<open>std::memory_order\<close>.
\<close>

datatype loc =
  Choosing nat | Number nat | Shared_counter | Inside_critical_section_count
  | Mutual_exclusion_violated

datatype memory_order = memory_order_relaxed | memory_order_seq_cst

datatype val = VBool bool | VInt int

text \<open>The conversions of C++ between \<^verbatim>\<open>bool\<close> and \<^verbatim>\<open>int\<close>.\<close>

fun as_bool :: "val \<Rightarrow> bool" where
  "as_bool (VBool b) = b"
| "as_bool (VInt x) = (x \<noteq> 0)"

fun as_int :: "val \<Rightarrow> int" where
  "as_int (VInt x) = x"
| "as_int (VBool b) = (if b then 1 else 0)"

text \<open>What a thread does to the shared memory in one step. \<open>Local\<close> is a step that touches
  none of it.\<close>

datatype access =
  Load loc memory_order
  | Store loc val memory_order
  | Fetch_add loc int memory_order
  | Fetch_sub loc int memory_order
  | Local

definition NUM_THREADS :: nat where "NUM_THREADS = 8"
definition ITERATIONS_PER_THREAD :: nat where "ITERATIONS_PER_THREAD = 10000"
definition MAX_THREADS :: nat where "MAX_THREADS = 64"
definition INT_MAX :: int where "INT_MAX = 2147483647"

subsection \<open>The thread: \<^verbatim>\<open>worker_thread\<close>, with \<^verbatim>\<open>lock\<close> and \<^verbatim>\<open>unlock\<close> inlined\<close>

text \<open>
  The program points, one for each access to an atomic object, in the order of the text:
  \<^item> \<open>Iterate\<close>: the test \<^verbatim>\<open>i < ITERATIONS_PER_THREAD\<close> of \<^verbatim>\<open>worker_thread\<close>;
  \<^item> \<open>Choose\<close>: \<^verbatim>\<open>choosing[thread_id].store(true, seq_cst)\<close>, then \<^verbatim>\<open>max_num = 0\<close>;
  \<^item> \<open>Scan\<close>: the loop over \<^verbatim>\<open>i\<close>, with \<^verbatim>\<open>number[i].load(relaxed)\<close>;
  \<^item> \<open>Take\<close>: \<^verbatim>\<open>number[thread_id].store(max_num + 1, seq_cst)\<close>;
  \<^item> \<open>Chosen\<close>: \<^verbatim>\<open>choosing[thread_id].store(false, seq_cst)\<close>;
  \<^item> \<open>Await_choosing\<close>: the loop over \<^verbatim>\<open>j\<close>, its \<^verbatim>\<open>continue\<close>, and
    \<^verbatim>\<open>while (choosing[j].load(seq_cst)) yield()\<close>;
  \<^item> \<open>Await_number\<close>: \<^verbatim>\<open>(num_j = number[j].load(seq_cst)) != 0\<close>;
  \<^item> \<open>Await_less\<close>: \<^verbatim>\<open>num_j < number[thread_id].load(seq_cst)\<close>;
  \<^item> \<open>Await_equal\<close>: \<^verbatim>\<open>num_j == number[thread_id].load(seq_cst) && j < thread_id\<close>;
  \<^item> \<open>Enter\<close>: \<^verbatim>\<open>current_inside = inside_critical_section_count.fetch_add(1, relaxed)\<close>;
  \<^item> \<open>Flag_entry\<close>: \<^verbatim>\<open>mutual_exclusion_violated.store(true, relaxed)\<close>, after
    \<^verbatim>\<open>current_inside > 0\<close>;
  \<^item> \<open>Count\<close>: \<^verbatim>\<open>shared_counter.fetch_add(1, relaxed)\<close>;
  \<^item> \<open>Recheck\<close>: \<^verbatim>\<open>inside_critical_section_count.load(relaxed) > 1\<close>;
  \<^item> \<open>Flag_exit\<close>: \<^verbatim>\<open>mutual_exclusion_violated.store(true, relaxed)\<close>;
  \<^item> \<open>Leave\<close>: \<^verbatim>\<open>inside_critical_section_count.fetch_sub(1, relaxed)\<close>;
  \<^item> \<open>Unlock\<close>: \<^verbatim>\<open>number[thread_id].store(0, seq_cst)\<close>, then \<^verbatim>\<open>++i\<close>;
  \<^item> \<open>Done\<close>: \<^verbatim>\<open>worker_thread\<close> has returned;
  \<^item> \<open>Undefined\<close>: \<^verbatim>\<open>max_num + 1\<close> with \<^verbatim>\<open>max_num == INT_MAX\<close>, a signed overflow.
  \<^verbatim>\<open>sleep_for\<close> touches no shared object and is no step.
\<close>

datatype point =
  Iterate | Choose | Scan | Take | Chosen
  | Await_choosing | Await_number | Await_less | Await_equal
  | Enter | Flag_entry | Count | Recheck | Flag_exit | Leave | Unlock
  | Done | Undefined

text \<open>The local variables of a thread: \<^verbatim>\<open>i\<close> of \<^verbatim>\<open>worker_thread\<close> (\<open>iteration\<close>), and \<^verbatim>\<open>i\<close>
  (\<open>scan_i\<close>), \<^verbatim>\<open>max_num\<close>, \<^verbatim>\<open>j\<close> (\<open>wait_j\<close>), \<^verbatim>\<open>num_j\<close> of \<^verbatim>\<open>lock\<close>.\<close>

record thread =
  pc :: point
  iteration :: nat
  scan_i :: nat
  max_num :: int
  wait_j :: nat
  num_j :: int
  current_inside :: int

text \<open>The access a thread makes next. \<open>n\<close> is \<^verbatim>\<open>NUM_THREADS\<close>, \<open>tid\<close> is \<^verbatim>\<open>thread_id\<close>.\<close>

definition access_of :: "nat \<Rightarrow> nat \<Rightarrow> thread \<Rightarrow> access" where
  "access_of n tid th =
     (case pc th of
        Iterate \<Rightarrow> Local
      | Choose \<Rightarrow> Store (Choosing tid) (VBool True) memory_order_seq_cst
      | Scan \<Rightarrow>
          if scan_i th < n then Load (Number (scan_i th)) memory_order_relaxed else Local
      | Take \<Rightarrow>
          if max_num th < INT_MAX
          then Store (Number tid) (VInt (max_num th + 1)) memory_order_seq_cst else Local
      | Chosen \<Rightarrow> Store (Choosing tid) (VBool False) memory_order_seq_cst
      | Await_choosing \<Rightarrow>
          if wait_j th < n \<and> tid \<noteq> wait_j th
          then Load (Choosing (wait_j th)) memory_order_seq_cst else Local
      | Await_number \<Rightarrow> Load (Number (wait_j th)) memory_order_seq_cst
      | Await_less \<Rightarrow> Load (Number tid) memory_order_seq_cst
      | Await_equal \<Rightarrow> Load (Number tid) memory_order_seq_cst
      | Enter \<Rightarrow> Fetch_add Inside_critical_section_count 1 memory_order_relaxed
      | Flag_entry \<Rightarrow> Store Mutual_exclusion_violated (VBool True) memory_order_relaxed
      | Count \<Rightarrow> Fetch_add Shared_counter 1 memory_order_relaxed
      | Recheck \<Rightarrow> Load Inside_critical_section_count memory_order_relaxed
      | Flag_exit \<Rightarrow> Store Mutual_exclusion_violated (VBool True) memory_order_relaxed
      | Leave \<Rightarrow> Fetch_sub Inside_critical_section_count 1 memory_order_relaxed
      | Unlock \<Rightarrow> Store (Number tid) (VInt 0) memory_order_seq_cst
      | Done \<Rightarrow> Local
      | Undefined \<Rightarrow> Local)"

text \<open>The thread after its access, where \<open>v\<close> is the value a load or a fetch-and-add
  returned. \<open>k\<close> is \<^verbatim>\<open>ITERATIONS_PER_THREAD\<close>.\<close>

definition after :: "nat \<Rightarrow> nat \<Rightarrow> nat \<Rightarrow> thread \<Rightarrow> val \<Rightarrow> thread" where
  "after n k tid th v =
     (case pc th of
        Iterate \<Rightarrow> if iteration th < k then th\<lparr>pc := Choose\<rparr> else th\<lparr>pc := Done\<rparr>
      | Choose \<Rightarrow> th\<lparr>max_num := 0, scan_i := 0, pc := Scan\<rparr>
      | Scan \<Rightarrow>
          if scan_i th < n
          then th\<lparr>max_num := (if as_int v > max_num th then as_int v else max_num th),
                  scan_i := scan_i th + 1\<rparr>
          else th\<lparr>pc := Take\<rparr>
      | Take \<Rightarrow> if max_num th < INT_MAX then th\<lparr>pc := Chosen\<rparr> else th\<lparr>pc := Undefined\<rparr>
      | Chosen \<Rightarrow> th\<lparr>wait_j := 0, pc := Await_choosing\<rparr>
      | Await_choosing \<Rightarrow>
          if wait_j th < n
          then (if tid = wait_j th then th\<lparr>wait_j := wait_j th + 1\<rparr>
                else if as_bool v then th
                else th\<lparr>pc := Await_number\<rparr>)
          else th\<lparr>pc := Enter\<rparr>
      | Await_number \<Rightarrow>
          if as_int v \<noteq> 0 then th\<lparr>num_j := as_int v, pc := Await_less\<rparr>
          else th\<lparr>num_j := as_int v, wait_j := wait_j th + 1, pc := Await_choosing\<rparr>
      | Await_less \<Rightarrow>
          if num_j th < as_int v then th\<lparr>pc := Await_number\<rparr> else th\<lparr>pc := Await_equal\<rparr>
      | Await_equal \<Rightarrow>
          if num_j th = as_int v \<and> wait_j th < tid then th\<lparr>pc := Await_number\<rparr>
          else th\<lparr>wait_j := wait_j th + 1, pc := Await_choosing\<rparr>
      | Enter \<Rightarrow>
          if as_int v > 0 then th\<lparr>current_inside := as_int v, pc := Flag_entry\<rparr>
          else th\<lparr>current_inside := as_int v, pc := Count\<rparr>
      | Flag_entry \<Rightarrow> th\<lparr>pc := Count\<rparr>
      | Count \<Rightarrow> th\<lparr>pc := Recheck\<rparr>
      | Recheck \<Rightarrow> if as_int v > 1 then th\<lparr>pc := Flag_exit\<rparr> else th\<lparr>pc := Leave\<rparr>
      | Flag_exit \<Rightarrow> th\<lparr>pc := Leave\<rparr>
      | Leave \<Rightarrow> th\<lparr>pc := Unlock\<rparr>
      | Unlock \<Rightarrow> th\<lparr>iteration := iteration th + 1, pc := Iterate\<rparr>
      | Done \<Rightarrow> th
      | Undefined \<Rightarrow> th)"

definition thread_new :: thread where
  "thread_new = \<lparr>pc = Iterate, iteration = 0, scan_i = 0, max_num = 0, wait_j = 0, num_j = 0,
                 current_inside = 0\<rparr>"

subsection \<open>The shared memory\<close>

text \<open>
  The atomic objects follow the C++ memory model, in its standard operational reading
  with timestamps and views. Each object keeps every value stored to it, in modification
  order; the position of a store in that list is its timestamp. A thread's view gives, for
  each object, the timestamp of the latest store the thread is ordered after; a store
  carries the view it releases.
  \<^item> A \<^verbatim>\<open>seq_cst\<close> store appends to the list and releases the thread's view. A \<^verbatim>\<open>seq_cst\<close>
    load reads the latest store (the order of the steps of a run is the single total
    order of the \<^verbatim>\<open>seq_cst\<close> operations) and acquires the view that store carries.
  \<^item> A \<^verbatim>\<open>relaxed\<close> load reads any store of the object that is not older than the thread's
    view of the object: the latest one, or a stale one. It acquires nothing. The run
    chooses the timestamp; \<open>None\<close>, or a timestamp that is not allowed, reads the latest.
  \<^item> A \<^verbatim>\<open>relaxed\<close> store appends and releases nothing.
  \<^item> A fetch-and-add reads the latest store and appends, atomically; a \<^verbatim>\<open>relaxed\<close> one
    acquires nothing and passes on the view of the store it read, a \<^verbatim>\<open>seq_cst\<close> one
    acquires that view and releases the thread's.
  The counters are integers here: \<^verbatim>\<open>inside_critical_section_count\<close> stays between 0 and
  the number of threads and \<^verbatim>\<open>shared_counter\<close> between 0 and the number of iterations of
  all threads, so the arithmetic of \<^verbatim>\<open>int\<close> and \<^verbatim>\<open>long long\<close> never wraps.
\<close>

type_synonym view = "loc \<Rightarrow> nat"
type_synonym message = "val \<times> view"
type_synonym memory = "loc \<Rightarrow> message list"

definition join :: "view \<Rightarrow> view \<Rightarrow> view" where
  "join v w = (\<lambda>x. max (v x) (w x))"

definition latest :: "memory \<Rightarrow> loc \<Rightarrow> nat" where
  "latest m x = length (m x) - 1"

definition value_at :: "memory \<Rightarrow> loc \<Rightarrow> val" where
  "value_at m x = fst (last (m x))"

definition rmw :: "loc \<Rightarrow> int \<Rightarrow> memory_order \<Rightarrow> view \<Rightarrow> memory \<Rightarrow> val \<times> view \<times> memory" where
  "rmw x d ord vw m =
     (let old = last (m x); ts = length (m x);
          vw' = (case ord of
                   memory_order_seq_cst \<Rightarrow> (join vw (snd old))(x := ts)
                 | memory_order_relaxed \<Rightarrow> vw(x := ts));
          released = (case ord of
                        memory_order_seq_cst \<Rightarrow> vw'
                      | memory_order_relaxed \<Rightarrow> (snd old)(x := ts))
      in (fst old, vw', m(x := m x @ [(VInt (as_int (fst old) + d), released)])))"

definition perform :: "access \<Rightarrow> nat option \<Rightarrow> view \<Rightarrow> memory \<Rightarrow> val \<times> view \<times> memory" where
  "perform a c vw m =
     (case a of
        Local \<Rightarrow> (VInt 0, vw, m)
      | Load x ord \<Rightarrow>
          (case ord of
             memory_order_seq_cst \<Rightarrow>
               (fst (last (m x)), (join vw (snd (last (m x))))(x := latest m x), m)
           | memory_order_relaxed \<Rightarrow>
               (let ts = (case c of
                            None \<Rightarrow> latest m x
                          | Some t \<Rightarrow> if vw x \<le> t \<and> t < length (m x) then t else latest m x)
                in (fst (m x ! ts), vw(x := ts), m)))
      | Store x v ord \<Rightarrow>
          (let ts = length (m x)
           in (v, vw(x := ts),
               m(x := m x @ [(v, case ord of
                                   memory_order_seq_cst \<Rightarrow> vw(x := ts)
                                 | memory_order_relaxed \<Rightarrow> (\<lambda>_. 0)(x := ts))])))
      | Fetch_add x d ord \<Rightarrow> rmw x d ord vw m
      | Fetch_sub x d ord \<Rightarrow> rmw x (- d) ord vw m)"

subsection \<open>The program: \<^verbatim>\<open>main\<close> and its threads\<close>

record system =
  threads :: "thread list"
  views :: "view list"
  memory :: memory

text \<open>\<^verbatim>\<open>main\<close> initialises the shared objects and creates the threads, which start ordered
  after the initialisation.\<close>

definition initial_value :: "loc \<Rightarrow> val" where
  "initial_value x =
     (case x of
        Choosing i \<Rightarrow> VBool False
      | Number i \<Rightarrow> VInt 0
      | Shared_counter \<Rightarrow> VInt 0
      | Inside_critical_section_count \<Rightarrow> VInt 0
      | Mutual_exclusion_violated \<Rightarrow> VBool False)"

definition init :: "nat \<Rightarrow> system" where
  "init n =
     \<lparr>threads = replicate n thread_new, views = replicate n (\<lambda>_. 0),
      memory = (\<lambda>x. [(initial_value x, (\<lambda>_. 0))])\<rparr>"

text \<open>One step of the program: thread \<open>t\<close> makes its next access; \<open>c\<close> is the choice of a
  relaxed load.\<close>

definition step :: "nat \<Rightarrow> nat \<Rightarrow> nat \<times> nat option \<Rightarrow> system \<Rightarrow> system" where
  "step n k tc s =
     (let t = fst tc
      in if t < length (threads s) \<and> t < length (views s)
         then (let th = threads s ! t;
                   r = perform (access_of n t th) (snd tc) (views s ! t) (memory s)
               in s\<lparr>threads := (threads s)[t := after n k t th (fst r)],
                    views := (views s)[t := fst (snd r)],
                    memory := snd (snd r)\<rparr>)
         else s)"

fun run :: "nat \<Rightarrow> nat \<Rightarrow> (nat \<times> nat option) list \<Rightarrow> system \<Rightarrow> system" where
  "run n k [] s = s"
| "run n k (tc # sched) s = run n k sched (step n k tc s)"

text \<open>
  \<^verbatim>\<open>main\<close> returns 1 before it creates anything if \<^verbatim>\<open>NUM_THREADS > MAX_THREADS\<close>. Otherwise
  it initialises, runs the threads and joins them. \<open>main_start\<close> is \<^verbatim>\<open>main\<close> up to the
  creation of the threads; \<open>main_result\<close> is the value \<^verbatim>\<open>main\<close> returns once the threads
  have left the memory as in \<open>s\<close>.
\<close>

definition main_start :: "nat \<Rightarrow> nat \<Rightarrow> int + system" where
  "main_start n max_threads = (if n > max_threads then Inl 1 else Inr (init n))"

definition joined :: "system \<Rightarrow> bool" where
  "joined s = list_all (\<lambda>th. pc th = Done) (threads s)"

definition main_result :: "nat \<Rightarrow> nat \<Rightarrow> system \<Rightarrow> int" where
  "main_result n k s =
     (let final_count = as_int (value_at (memory s) Shared_counter);
          expected_count = int n * int k;
          count_correct = (final_count = expected_count);
          mutex_ok = (\<not> as_bool (value_at (memory s) Mutual_exclusion_violated))
      in if count_correct \<and> mutex_ok then 0 else 1)"

subsection \<open>A thread on its own\<close>

text \<open>
  What a thread does depends on the memory only through the values its loads return.
  \<open>exec\<close> runs a thread for one step for each value of a list, the value being what that
  step reads (it is ignored by a step that reads nothing), and gives the accesses made, in
  order, and the thread at the end.
\<close>

fun exec :: "nat \<Rightarrow> nat \<Rightarrow> nat \<Rightarrow> val list \<Rightarrow> thread \<Rightarrow> access list \<times> thread" where
  "exec n k tid [] th = ([], th)"
| "exec n k tid (v # vs) th =
     (access_of n tid th # fst (exec n k tid vs (after n k tid th v)),
      snd (exec n k tid vs (after n k tid th v)))"

text \<open>
  One evaluation of the condition of the second \<^verbatim>\<open>while\<close> of \<^verbatim>\<open>lock\<close>, from \<open>Await_number\<close>:
  \<^verbatim>\<open>number[j]\<close> is read as \<open>tj\<close>, and \<^verbatim>\<open>number[thread_id]\<close>, if the evaluation gets to it,
  as \<open>mine\<close>. The evaluation takes one, two or three loads.
\<close>

definition poll :: "nat \<Rightarrow> nat \<Rightarrow> nat \<Rightarrow> thread \<Rightarrow> int \<Rightarrow> int \<Rightarrow> thread" where
  "poll n k tid th tj mine =
     (let th1 = after n k tid th (VInt tj)
      in if pc th1 \<noteq> Await_less then th1
         else (let th2 = after n k tid th1 (VInt mine)
               in if pc th2 \<noteq> Await_equal then th2
                  else after n k tid th2 (VInt mine)))"

subsection \<open>A run with a stale read\<close>

text \<open>
  Two threads, one iteration each. First thread 1 runs alone: it takes ticket 1, finds
  thread 0 neither choosing nor holding a ticket, and enters. Then thread 0 runs: the
  relaxed load of \<^verbatim>\<open>number[1]\<close> in its scan reads the initial 0 (timestamp 0), which the
  memory model allows, since thread 0 has acquired nothing from thread 1 yet. Last, both
  threads finish their iteration.
\<close>

definition stale_run_first :: "(nat \<times> nat option) list" where
  "stale_run_first = replicate 12 (1, None)"

definition stale_run_second :: "(nat \<times> nat option) list" where
  "stale_run_second = [(0, None), (0, None), (0, None), (0, Some 0)] @ replicate 11 (0, None)"

definition stale_run_rest :: "(nat \<times> nat option) list" where
  "stale_run_rest = replicate 6 (0, None) @ replicate 5 (1, None)"


section \<open>The class \<^verbatim>\<open>BakeryLock\<close>\<close>

text \<open>
  The second program has the lock as a class, with \<^verbatim>\<open>vector<atomic<bool>> choosing\<close> and
  \<^verbatim>\<open>vector<atomic<int>> ticket\<close> of \<^verbatim>\<open>threadCount\<close> elements, and no verification data
  but the counter \<^verbatim>\<open>atomic<int> sharedCounter\<close>. It reads and writes the atomic objects
  through their conversion and assignment operators, each a load or a store with the
  default order \<^verbatim>\<open>seq_cst\<close>. Here \<open>Number i\<close> is \<^verbatim>\<open>ticket[i]\<close> and \<open>Shared_counter\<close> is
  \<^verbatim>\<open>sharedCounter\<close>.

  The program points of \<^verbatim>\<open>threadFunction\<close>, with \<^verbatim>\<open>lock\<close> and \<^verbatim>\<open>unlock\<close> inlined:
  \<^item> \<open>B_iterate\<close>: the test \<^verbatim>\<open>i < OPERATIONS_PER_THREAD\<close>;
  \<^item> \<open>B_choose\<close>: \<^verbatim>\<open>choosing[id] = true\<close>, then \<^verbatim>\<open>max_ticket = 0\<close>;
  \<^item> \<open>B_scan\<close>: the loop with \<^verbatim>\<open>current = ticket[i]\<close> and \<^verbatim>\<open>max(max_ticket, current)\<close>;
  \<^item> \<open>B_take\<close>: \<^verbatim>\<open>ticket[id] = max_ticket + 1\<close>;
  \<^item> \<open>B_chosen\<close>: \<^verbatim>\<open>choosing[id] = false\<close>;
  \<^item> \<open>B_await_choosing\<close>: the loop over \<^verbatim>\<open>i\<close>, its \<^verbatim>\<open>continue\<close>, and \<^verbatim>\<open>while (choosing[i])\<close>;
  \<^item> \<open>B_await_nonzero\<close>: the load in \<^verbatim>\<open>ticket[i] != 0\<close>;
  \<^item> \<open>B_await_less_other\<close>, \<open>B_await_less_own\<close>: the two loads in
    \<^verbatim>\<open>ticket[i] < ticket[id]\<close>;
  \<^item> \<open>B_await_equal_other\<close>, \<open>B_await_equal_own\<close>: the two loads in
    \<^verbatim>\<open>ticket[i] == ticket[id]\<close>, followed by \<^verbatim>\<open>i < id\<close>;
  \<^item> \<open>B_critical\<close>: \<^verbatim>\<open>sharedCounter++\<close>;
  \<^item> \<open>B_unlock\<close>: \<^verbatim>\<open>ticket[id] = 0\<close>, then \<^verbatim>\<open>++i\<close>;
  \<^item> \<open>B_done\<close>: \<^verbatim>\<open>threadFunction\<close> has returned;
  \<^item> \<open>B_undefined\<close>: \<^verbatim>\<open>max_ticket + 1\<close> with \<^verbatim>\<open>max_ticket == INT_MAX\<close>.
  C++ leaves open which operand of \<^verbatim>\<open><\<close> and of \<^verbatim>\<open>==\<close> is evaluated first; the left one is
  taken first here. The condition of the second \<^verbatim>\<open>while\<close> loads \<^verbatim>\<open>ticket[i]\<close> up to three times
  and \<^verbatim>\<open>ticket[id]\<close> up to twice in one evaluation.
\<close>

datatype bpoint =
  B_iterate | B_choose | B_scan | B_take | B_chosen
  | B_await_choosing | B_await_nonzero | B_await_less_other | B_await_less_own
  | B_await_equal_other | B_await_equal_own
  | B_critical | B_unlock | B_done | B_undefined

text \<open>The local variables: \<^verbatim>\<open>i\<close> of \<^verbatim>\<open>threadFunction\<close> (\<open>operation\<close>), \<^verbatim>\<open>i\<close> of the first loop
  of \<^verbatim>\<open>lock\<close> (\<open>b_scan_i\<close>), \<^verbatim>\<open>max_ticket\<close>, \<^verbatim>\<open>i\<close> of the second loop (\<open>b_wait_i\<close>), and the
  value of the left operand of a comparison while the right one is loaded (\<open>lhs\<close>).\<close>

record bthread =
  bpc :: bpoint
  operation :: nat
  b_scan_i :: nat
  max_ticket :: int
  b_wait_i :: nat
  lhs :: int

definition BakeryLock_access_of :: "nat \<Rightarrow> nat \<Rightarrow> bthread \<Rightarrow> access" where
  "BakeryLock_access_of n tid th =
     (case bpc th of
        B_iterate \<Rightarrow> Local
      | B_choose \<Rightarrow> Store (Choosing tid) (VBool True) memory_order_seq_cst
      | B_scan \<Rightarrow>
          if b_scan_i th < n then Load (Number (b_scan_i th)) memory_order_seq_cst else Local
      | B_take \<Rightarrow>
          if max_ticket th < INT_MAX
          then Store (Number tid) (VInt (max_ticket th + 1)) memory_order_seq_cst else Local
      | B_chosen \<Rightarrow> Store (Choosing tid) (VBool False) memory_order_seq_cst
      | B_await_choosing \<Rightarrow>
          if b_wait_i th < n \<and> b_wait_i th \<noteq> tid
          then Load (Choosing (b_wait_i th)) memory_order_seq_cst else Local
      | B_await_nonzero \<Rightarrow> Load (Number (b_wait_i th)) memory_order_seq_cst
      | B_await_less_other \<Rightarrow> Load (Number (b_wait_i th)) memory_order_seq_cst
      | B_await_less_own \<Rightarrow> Load (Number tid) memory_order_seq_cst
      | B_await_equal_other \<Rightarrow> Load (Number (b_wait_i th)) memory_order_seq_cst
      | B_await_equal_own \<Rightarrow> Load (Number tid) memory_order_seq_cst
      | B_critical \<Rightarrow> Fetch_add Shared_counter 1 memory_order_seq_cst
      | B_unlock \<Rightarrow> Store (Number tid) (VInt 0) memory_order_seq_cst
      | B_done \<Rightarrow> Local
      | B_undefined \<Rightarrow> Local)"

definition BakeryLock_after :: "nat \<Rightarrow> nat \<Rightarrow> nat \<Rightarrow> bthread \<Rightarrow> val \<Rightarrow> bthread" where
  "BakeryLock_after n k tid th v =
     (case bpc th of
        B_iterate \<Rightarrow> if operation th < k then th\<lparr>bpc := B_choose\<rparr> else th\<lparr>bpc := B_done\<rparr>
      | B_choose \<Rightarrow> th\<lparr>max_ticket := 0, b_scan_i := 0, bpc := B_scan\<rparr>
      | B_scan \<Rightarrow>
          if b_scan_i th < n
          then th\<lparr>max_ticket := max (max_ticket th) (as_int v), b_scan_i := b_scan_i th + 1\<rparr>
          else th\<lparr>bpc := B_take\<rparr>
      | B_take \<Rightarrow>
          if max_ticket th < INT_MAX then th\<lparr>bpc := B_chosen\<rparr> else th\<lparr>bpc := B_undefined\<rparr>
      | B_chosen \<Rightarrow> th\<lparr>b_wait_i := 0, bpc := B_await_choosing\<rparr>
      | B_await_choosing \<Rightarrow>
          if b_wait_i th < n
          then (if b_wait_i th = tid then th\<lparr>b_wait_i := b_wait_i th + 1\<rparr>
                else if as_bool v then th
                else th\<lparr>bpc := B_await_nonzero\<rparr>)
          else th\<lparr>bpc := B_critical\<rparr>
      | B_await_nonzero \<Rightarrow>
          if as_int v \<noteq> 0 then th\<lparr>bpc := B_await_less_other\<rparr>
          else th\<lparr>b_wait_i := b_wait_i th + 1, bpc := B_await_choosing\<rparr>
      | B_await_less_other \<Rightarrow> th\<lparr>lhs := as_int v, bpc := B_await_less_own\<rparr>
      | B_await_less_own \<Rightarrow>
          if lhs th < as_int v then th\<lparr>bpc := B_await_nonzero\<rparr>
          else th\<lparr>bpc := B_await_equal_other\<rparr>
      | B_await_equal_other \<Rightarrow> th\<lparr>lhs := as_int v, bpc := B_await_equal_own\<rparr>
      | B_await_equal_own \<Rightarrow>
          if lhs th = as_int v \<and> b_wait_i th < tid then th\<lparr>bpc := B_await_nonzero\<rparr>
          else th\<lparr>b_wait_i := b_wait_i th + 1, bpc := B_await_choosing\<rparr>
      | B_critical \<Rightarrow> th\<lparr>bpc := B_unlock\<rparr>
      | B_unlock \<Rightarrow> th\<lparr>operation := operation th + 1, bpc := B_iterate\<rparr>
      | B_done \<Rightarrow> th
      | B_undefined \<Rightarrow> th)"

definition bthread_new :: bthread where
  "bthread_new = \<lparr>bpc = B_iterate, operation = 0, b_scan_i = 0, max_ticket = 0, b_wait_i = 0,
                  lhs = 0\<rparr>"

text \<open>The constructor \<^verbatim>\<open>BakeryLock(n)\<close> sets every \<^verbatim>\<open>choosing[i]\<close> to false and every
  \<^verbatim>\<open>ticket[i]\<close> to 0; \<^verbatim>\<open>testCorrectness\<close> sets \<^verbatim>\<open>sharedCounter\<close> to 0 and creates the threads. It
  takes any \<^verbatim>\<open>n\<close>: there is no maximum.\<close>

record bsystem =
  bthreads :: "bthread list"
  bviews :: "view list"
  bmemory :: memory

definition BakeryLock_new :: "nat \<Rightarrow> bsystem" where
  "BakeryLock_new n =
     \<lparr>bthreads = replicate n bthread_new, bviews = replicate n (\<lambda>_. 0),
      bmemory = (\<lambda>x. [(initial_value x, (\<lambda>_. 0))])\<rparr>"

definition BakeryLock_step :: "nat \<Rightarrow> nat \<Rightarrow> nat \<times> nat option \<Rightarrow> bsystem \<Rightarrow> bsystem" where
  "BakeryLock_step n k tc s =
     (let t = fst tc
      in if t < length (bthreads s) \<and> t < length (bviews s)
         then (let th = bthreads s ! t;
                   r = perform (BakeryLock_access_of n t th) (snd tc) (bviews s ! t) (bmemory s)
               in s\<lparr>bthreads := (bthreads s)[t := BakeryLock_after n k t th (fst r)],
                    bviews := (bviews s)[t := fst (snd r)],
                    bmemory := snd (snd r)\<rparr>)
         else s)"

fun BakeryLock_run :: "nat \<Rightarrow> nat \<Rightarrow> (nat \<times> nat option) list \<Rightarrow> bsystem \<Rightarrow> bsystem" where
  "BakeryLock_run n k [] s = s"
| "BakeryLock_run n k (tc # sched) s = BakeryLock_run n k sched (BakeryLock_step n k tc s)"

fun BakeryLock_exec :: "nat \<Rightarrow> nat \<Rightarrow> nat \<Rightarrow> val list \<Rightarrow> bthread \<Rightarrow> access list \<times> bthread" where
  "BakeryLock_exec n k tid [] th = ([], th)"
| "BakeryLock_exec n k tid (v # vs) th =
     (BakeryLock_access_of n tid th
        # fst (BakeryLock_exec n k tid vs (BakeryLock_after n k tid th v)),
      snd (BakeryLock_exec n k tid vs (BakeryLock_after n k tid th v)))"

text \<open>
  One evaluation of the condition of the second \<^verbatim>\<open>while\<close>, from \<open>B_await_nonzero\<close>, with
  every load of \<^verbatim>\<open>ticket[i]\<close> returning \<open>ti\<close> and every load of \<^verbatim>\<open>ticket[id]\<close> returning
  \<open>mine\<close>. It takes one, three or five loads.
\<close>

definition BakeryLock_poll :: "nat \<Rightarrow> nat \<Rightarrow> nat \<Rightarrow> bthread \<Rightarrow> int \<Rightarrow> int \<Rightarrow> bthread" where
  "BakeryLock_poll n k tid th ti mine =
     (let th1 = BakeryLock_after n k tid th (VInt ti)
      in if bpc th1 \<noteq> B_await_less_other then th1
         else (let th3 = BakeryLock_after n k tid
                           (BakeryLock_after n k tid th1 (VInt ti)) (VInt mine)
               in if bpc th3 \<noteq> B_await_equal_other then th3
                  else BakeryLock_after n k tid
                         (BakeryLock_after n k tid th3 (VInt ti)) (VInt mine)))"

definition OPERATIONS_PER_THREAD :: nat where "OPERATIONS_PER_THREAD = 100000"


section \<open>Invariants\<close>

subsection \<open>The executor of the delegation lock\<close>

definition cur_promise :: "'s DelegationLock \<Rightarrow> nat list" where
  "cur_promise s = (case task s of None \<Rightarrow> [] | Some t \<Rightarrow> [completion t])"

text \<open>
  The promises are numbered in submission order, so the submissions so far are
  \<open>[0..<promises s]\<close>. They split into the closures already called, the task the executor
  has dequeued but not yet called, and the queue. The resolved promises are the called
  ones, less the one whose closure has just been called. \<^verbatim>\<open>front()\<close> is never reached on
  an empty queue.
\<close>

definition dl_inv :: "'s DelegationLock \<Rightarrow> bool" where
  "dl_inv s \<longleftrightarrow>
     wpc s \<noteq> W_undefined \<and>
     ((wpc s = W_work \<or> wpc s = W_resolve \<or> wpc s = W_terminated) = (task s \<noteq> None)) \<and>
     (wpc s = W_check \<longrightarrow> taskQueue s \<noteq> [] \<or> \<not> running s) \<and>
     (wpc s = W_dequeue \<longrightarrow> taskQueue s \<noteq> []) \<and>
     executed s @ (if wpc s = W_work then cur_promise s else []) @ map completion (taskQueue s)
       = [0..<promises s] \<and>
     resolved s @ (if wpc s = W_work then [] else cur_promise s) = executed s"


subsection \<open>The effect of a step of the bakery program\<close>

definition vals :: "memory \<Rightarrow> loc \<Rightarrow> val list" where
  "vals m x = map fst (m x)"

text \<open>The value a step of thread \<open>t\<close> appends, and to which object.\<close>

definition effect :: "nat \<Rightarrow> thread \<Rightarrow> memory \<Rightarrow> (loc \<times> val) option" where
  "effect t th m =
     (case pc th of
        Choose \<Rightarrow> Some (Choosing t, VBool True)
      | Take \<Rightarrow> if max_num th < INT_MAX then Some (Number t, VInt (max_num th + 1)) else None
      | Chosen \<Rightarrow> Some (Choosing t, VBool False)
      | Enter \<Rightarrow> Some (Inside_critical_section_count,
                       VInt (as_int (last (vals m Inside_critical_section_count)) + 1))
      | Flag_entry \<Rightarrow> Some (Mutual_exclusion_violated, VBool True)
      | Count \<Rightarrow> Some (Shared_counter, VInt (as_int (last (vals m Shared_counter)) + 1))
      | Flag_exit \<Rightarrow> Some (Mutual_exclusion_violated, VBool True)
      | Leave \<Rightarrow> Some (Inside_critical_section_count,
                       VInt (as_int (last (vals m Inside_critical_section_count)) - 1))
      | Unlock \<Rightarrow> Some (Number t, VInt 0)
      | _ \<Rightarrow> None)"

definition appended :: "nat \<Rightarrow> thread \<Rightarrow> memory \<Rightarrow> loc \<Rightarrow> val list" where
  "appended t th m y =
     (case effect t th m of None \<Rightarrow> [] | Some (x, v) \<Rightarrow> if x = y then [v] else [])"


subsection \<open>The harness\<close>

text \<open>
  A thread is inside from its increment of \<^verbatim>\<open>inside_critical_section_count\<close> to its
  decrement; it has counted once it has incremented \<^verbatim>\<open>shared_counter\<close> in the iteration
  it is in.
\<close>

definition inside :: "thread \<Rightarrow> bool" where
  "inside th = (pc th = Flag_entry \<or> pc th = Count \<or> pc th = Recheck \<or> pc th = Flag_exit
                \<or> pc th = Leave)"

definition counted :: "thread \<Rightarrow> int" where
  "counted th = int (iteration th)
     + (if pc th = Recheck \<or> pc th = Flag_exit \<or> pc th = Leave \<or> pc th = Unlock
        then 1 else 0)"

definition iteration_ok :: "nat \<Rightarrow> thread \<Rightarrow> bool" where
  "iteration_ok k th \<longleftrightarrow>
     iteration th \<le> k \<and> (pc th \<noteq> Iterate \<and> pc th \<noteq> Done \<longrightarrow> iteration th < k) \<and>
     (pc th = Done \<longrightarrow> iteration th = k)"

definition harness_inv :: "nat \<Rightarrow> nat \<Rightarrow> system \<Rightarrow> bool" where
  "harness_inv n k s \<longleftrightarrow>
     length (threads s) = n \<and> length (views s) = n \<and> (\<forall>x. vals (memory s) x \<noteq> []) \<and>
     (\<forall>i < n. iteration_ok k (threads s ! i)) \<and>
     (\<forall>v \<in> set (tl (vals (memory s) Mutual_exclusion_violated)). v = VBool True) \<and>
     as_int (last (vals (memory s) Inside_critical_section_count))
       = sum_list (map (\<lambda>th. if inside th then 1 else 0) (threads s)) \<and>
     as_int (last (vals (memory s) Shared_counter)) = sum_list (map counted (threads s))"


subsection \<open>The tickets\<close>

text \<open>
  A thread has taken a ticket in its current iteration from its store to \<^verbatim>\<open>number\<close> up to
  its \<^verbatim>\<open>unlock\<close>; \<open>taken\<close> counts the tickets a thread has taken so far. Every ticket is at
  most the number of tickets taken so far by all threads, which is at most the number of
  iterations of all threads: \<^verbatim>\<open>max_num + 1\<close> does not overflow if that number fits an
  \<^verbatim>\<open>int\<close>.
\<close>

definition holding :: "thread \<Rightarrow> bool" where
  "holding th =
     (pc th = Chosen \<or> pc th = Await_choosing \<or> pc th = Await_number \<or> pc th = Await_less
      \<or> pc th = Await_equal \<or> pc th = Enter \<or> pc th = Flag_entry \<or> pc th = Count
      \<or> pc th = Recheck \<or> pc th = Flag_exit \<or> pc th = Leave \<or> pc th = Unlock)"

definition taken :: "thread \<Rightarrow> int" where
  "taken th = int (iteration th) + (if holding th then 1 else 0)"

definition ticket_of :: "thread \<Rightarrow> int" where
  "ticket_of th = (if holding th then max_num th + 1 else 0)"

definition doorway :: "thread \<Rightarrow> bool" where
  "doorway th = (pc th = Scan \<or> pc th = Take \<or> pc th = Chosen)"

definition thread_ok :: "int \<Rightarrow> thread \<Rightarrow> bool" where
  "thread_ok b th \<longleftrightarrow> pc th \<noteq> Undefined \<and> 0 \<le> max_num th \<and> max_num th \<le> b"

definition ticket_inv :: "nat \<Rightarrow> system \<Rightarrow> bool" where
  "ticket_inv n s \<longleftrightarrow>
     (\<forall>i < n. thread_ok (sum_list (map taken (threads s))) (threads s ! i)) \<and>
     (\<forall>i. \<forall>v \<in> set (vals (memory s) (Number i)).
         \<exists>x. v = VInt x \<and> 0 \<le> x \<and> x \<le> sum_list (map taken (threads s))) \<and>
     (\<forall>i < n. last (vals (memory s) (Choosing i)) = VBool (doorway (threads s ! i))) \<and>
     (\<forall>i < n. last (vals (memory s) (Number i)) = VInt (ticket_of (threads s ! i)))"





subsection \<open>The class \<^verbatim>\<open>BakeryLock\<close>\<close>

definition b_effect :: "nat \<Rightarrow> bthread \<Rightarrow> memory \<Rightarrow> (loc \<times> val) option" where
  "b_effect t th m =
     (case bpc th of
        B_choose \<Rightarrow> Some (Choosing t, VBool True)
      | B_take \<Rightarrow>
          if max_ticket th < INT_MAX then Some (Number t, VInt (max_ticket th + 1)) else None
      | B_chosen \<Rightarrow> Some (Choosing t, VBool False)
      | B_critical \<Rightarrow> Some (Shared_counter, VInt (as_int (last (vals m Shared_counter)) + 1))
      | B_unlock \<Rightarrow> Some (Number t, VInt 0)
      | _ \<Rightarrow> None)"

definition b_appended :: "nat \<Rightarrow> bthread \<Rightarrow> memory \<Rightarrow> loc \<Rightarrow> val list" where
  "b_appended t th m y =
     (case b_effect t th m of None \<Rightarrow> [] | Some (x, v) \<Rightarrow> if x = y then [v] else [])"

definition b_holding :: "bthread \<Rightarrow> bool" where
  "b_holding th =
     (bpc th = B_chosen \<or> bpc th = B_await_choosing \<or> bpc th = B_await_nonzero
      \<or> bpc th = B_await_less_other \<or> bpc th = B_await_less_own
      \<or> bpc th = B_await_equal_other \<or> bpc th = B_await_equal_own
      \<or> bpc th = B_critical \<or> bpc th = B_unlock)"

definition b_taken :: "bthread \<Rightarrow> int" where
  "b_taken th = int (operation th) + (if b_holding th then 1 else 0)"

definition b_counted :: "bthread \<Rightarrow> int" where
  "b_counted th = int (operation th) + (if bpc th = B_unlock then 1 else 0)"

definition b_ticket_of :: "bthread \<Rightarrow> int" where
  "b_ticket_of th = (if b_holding th then max_ticket th + 1 else 0)"

definition b_doorway :: "bthread \<Rightarrow> bool" where
  "b_doorway th = (bpc th = B_scan \<or> bpc th = B_take \<or> bpc th = B_chosen)"

definition b_thread_ok :: "nat \<Rightarrow> int \<Rightarrow> bthread \<Rightarrow> bool" where
  "b_thread_ok k b th \<longleftrightarrow>
     operation th \<le> k \<and> (bpc th \<noteq> B_iterate \<and> bpc th \<noteq> B_done \<longrightarrow> operation th < k) \<and>
     (bpc th = B_done \<longrightarrow> operation th = k) \<and>
     bpc th \<noteq> B_undefined \<and> 0 \<le> max_ticket th \<and> max_ticket th \<le> b"

definition BakeryLock_inv :: "nat \<Rightarrow> nat \<Rightarrow> bsystem \<Rightarrow> bool" where
  "BakeryLock_inv n k s \<longleftrightarrow>
     length (bthreads s) = n \<and> length (bviews s) = n \<and> (\<forall>x. vals (bmemory s) x \<noteq> []) \<and>
     (\<forall>i < n. b_thread_ok k (sum_list (map b_taken (bthreads s))) (bthreads s ! i)) \<and>
     (\<forall>i. \<forall>v \<in> set (vals (bmemory s) (Number i)).
         \<exists>x. v = VInt x \<and> 0 \<le> x \<and> x \<le> sum_list (map b_taken (bthreads s))) \<and>
     (\<forall>i < n. last (vals (bmemory s) (Choosing i)) = VBool (b_doorway (bthreads s ! i))) \<and>
     (\<forall>i < n. last (vals (bmemory s) (Number i)) = VInt (b_ticket_of (bthreads s ! i))) \<and>
     as_int (last (vals (bmemory s) Shared_counter)) = sum_list (map b_counted (bthreads s))"

subsection \<open>Mutual exclusion\<close>

text \<open>
  A thread is waiting in the second loop of \<^verbatim>\<open>lock\<close>, and critical from the return of
  \<^verbatim>\<open>lock\<close> to the store of \<^verbatim>\<open>unlock\<close>. For a thread \<open>a\<close> that holds a ticket, and another
  thread \<open>k\<close>: \<open>k\<close> has seen the ticket of \<open>a\<close> if its scan, once past \<^verbatim>\<open>number[a]\<close>, has a
  maximum that is at least that ticket; \<open>a\<close> goes first if \<open>k\<close> holds no ticket or a ticket
  that comes after the one of \<open>a\<close> in the lexicographic order.
\<close>

definition waiting :: "thread \<Rightarrow> bool" where
  "waiting th = (pc th = Await_choosing \<or> pc th = Await_number \<or> pc th = Await_less
                 \<or> pc th = Await_equal)"

definition critical :: "thread \<Rightarrow> bool" where
  "critical th = (pc th = Enter \<or> pc th = Flag_entry \<or> pc th = Count \<or> pc th = Recheck
                  \<or> pc th = Flag_exit \<or> pc th = Leave \<or> pc th = Unlock)"

definition seen :: "nat \<Rightarrow> thread \<Rightarrow> thread \<Rightarrow> bool" where
  "seen a A K \<longleftrightarrow>
     (pc K = Scan \<and> a < scan_i K \<longrightarrow> max_num A + 1 \<le> max_num K) \<and>
     (pc K = Take \<or> pc K = Chosen \<longrightarrow> max_num A + 1 \<le> max_num K)"

definition goes_first :: "nat \<Rightarrow> thread \<Rightarrow> nat \<Rightarrow> thread \<Rightarrow> bool" where
  "goes_first a A k K \<longleftrightarrow> (holding K \<longrightarrow> (max_num A + 1, a) < (ticket_of K, k))"

text \<open>
  What thread \<open>a\<close> knows of thread \<open>k\<close>: once it is past \<open>k\<close> in its wait, \<open>k\<close> has seen its
  ticket and it goes first; while it evaluates the condition on \<^verbatim>\<open>number[k]\<close>, having read
  \<^verbatim>\<open>choosing[k]\<close> as false, \<open>k\<close> has seen its ticket, and the value \<^verbatim>\<open>num_j\<close> it has read is the
  ticket of \<open>k\<close> unless that ticket is above its own.
\<close>

definition pair_inv :: "nat \<Rightarrow> thread \<Rightarrow> nat \<Rightarrow> thread \<Rightarrow> bool" where
  "pair_inv a A k K \<longleftrightarrow>
     (critical A \<or> waiting A \<and> k < wait_j A \<longrightarrow> seen a A K \<and> goes_first a A k K) \<and>
     (wait_j A = k \<and> (pc A = Await_number \<or> pc A = Await_less \<or> pc A = Await_equal) \<longrightarrow>
        seen a A K \<and>
        (pc A \<noteq> Await_number \<longrightarrow>
           (holding K \<and> ticket_of K \<le> max_num A + 1 \<longrightarrow> num_j A = ticket_of K)) \<and>
        (pc A = Await_equal \<longrightarrow> \<not> num_j A < max_num A + 1))"

definition exclusion_inv :: "nat \<Rightarrow> system \<Rightarrow> bool" where
  "exclusion_inv n s \<longleftrightarrow>
     (\<forall>a < n. \<forall>k < n. a \<noteq> k \<longrightarrow> pair_inv a (threads s ! a) k (threads s ! k)) \<and>
     (\<forall>t < n. pc (threads s ! t) \<noteq> Flag_entry \<and> pc (threads s ! t) \<noteq> Flag_exit) \<and>
     vals (memory s) Mutual_exclusion_violated = [VBool False]"

text \<open>A run in which every relaxed load reads the latest store, as a sequentially
  consistent load does.\<close>

definition reads_latest :: "(nat \<times> nat option) list \<Rightarrow> bool" where
  "reads_latest sched = list_all (\<lambda>tc. snd tc = None) sched"

text \<open>The same for \<^verbatim>\<open>BakeryLock\<close>, whose condition loads the ticket of \<open>k\<close> anew for each
  comparison: what \<open>a\<close> knows of \<open>k\<close> is then about the value it has loaded last (\<open>lhs\<close>).\<close>

definition b_waiting :: "bthread \<Rightarrow> bool" where
  "b_waiting th =
     (bpc th = B_await_choosing \<or> bpc th = B_await_nonzero \<or> bpc th = B_await_less_other
      \<or> bpc th = B_await_less_own \<or> bpc th = B_await_equal_other
      \<or> bpc th = B_await_equal_own)"

definition b_critical :: "bthread \<Rightarrow> bool" where
  "b_critical th = (bpc th = B_critical \<or> bpc th = B_unlock)"

definition b_seen :: "nat \<Rightarrow> bthread \<Rightarrow> bthread \<Rightarrow> bool" where
  "b_seen a A K \<longleftrightarrow>
     (bpc K = B_scan \<and> a < b_scan_i K \<longrightarrow> max_ticket A + 1 \<le> max_ticket K) \<and>
     (bpc K = B_take \<or> bpc K = B_chosen \<longrightarrow> max_ticket A + 1 \<le> max_ticket K)"

definition b_goes_first :: "nat \<Rightarrow> bthread \<Rightarrow> nat \<Rightarrow> bthread \<Rightarrow> bool" where
  "b_goes_first a A k K \<longleftrightarrow> (b_holding K \<longrightarrow> (max_ticket A + 1, a) < (b_ticket_of K, k))"

definition b_pair_inv :: "nat \<Rightarrow> bthread \<Rightarrow> nat \<Rightarrow> bthread \<Rightarrow> bool" where
  "b_pair_inv a A k K \<longleftrightarrow>
     (b_critical A \<or> b_waiting A \<and> k < b_wait_i A \<longrightarrow> b_seen a A K \<and> b_goes_first a A k K) \<and>
     (b_wait_i A = k \<and> b_waiting A \<and> bpc A \<noteq> B_await_choosing \<longrightarrow>
        b_seen a A K \<and>
        (bpc A = B_await_less_own \<longrightarrow>
           (b_holding K \<and> b_ticket_of K \<le> max_ticket A + 1 \<longrightarrow> lhs A = b_ticket_of K)) \<and>
        (bpc A = B_await_equal_other \<or> bpc A = B_await_equal_own \<longrightarrow>
           (b_holding K \<longrightarrow> max_ticket A + 1 \<le> b_ticket_of K)) \<and>
        (bpc A = B_await_equal_own \<longrightarrow>
           (b_holding K \<and> b_ticket_of K = max_ticket A + 1 \<longrightarrow> lhs A = b_ticket_of K)))"

definition BakeryLock_exclusion_inv :: "nat \<Rightarrow> bsystem \<Rightarrow> bool" where
  "BakeryLock_exclusion_inv n s \<longleftrightarrow>
     (\<forall>a < n. \<forall>k < n. a \<noteq> k \<longrightarrow> b_pair_inv a (bthreads s ! a) k (bthreads s ! k))"
section \<open>The delegation lock: proofs\<close>

subsection \<open>Invariant of the executor\<close>

lemma dl_inv_new: "dl_inv (DelegationLock_new p)"
  by (simp add: dl_inv_def DelegationLock_new_def cur_promise_def)

lemma dl_inv_worker: "dl_inv s \<Longrightarrow> dl_inv (worker s)"
  by (cases "wpc s")
     (auto simp: dl_inv_def worker_def cur_promise_def split: list.splits option.splits)

lemma dl_inv_step: "dl_inv s \<Longrightarrow> dl_inv (dl_step e s)"
proof (cases e)
  case (Submit w)
  assume "dl_inv s"
  then show ?thesis using Submit
    by (auto simp: dl_step_def dl_inv_def async_def notify_one_def mutex_held_def cur_promise_def)
next
  case Stop
  assume "dl_inv s"
  then show ?thesis using Stop by (auto simp: dl_step_def dl_inv_def cur_promise_def)
next
  case Notify
  assume "dl_inv s"
  then show ?thesis using Notify
    by (auto simp: dl_step_def dl_inv_def notify_one_def cur_promise_def)
next
  case Worker
  assume "dl_inv s"
  then show ?thesis using Worker by (simp add: dl_step_def dl_inv_worker)
qed

lemma dl_inv_run: "dl_inv s \<Longrightarrow> dl_inv (dl_run es s)"
  by (induction es arbitrary: s) (auto simp: dl_inv_step)


lemma front_never_on_empty_queue: "wpc (dl_run es (DelegationLock_new p)) \<noteq> W_undefined"
  using dl_inv_run [OF dl_inv_new, of es p] by (simp add: dl_inv_def)

lemma throwing_closure_terminates:
  assumes "wpc s = W_work" and "task s = Some t" and "work t (protected s) = None"
  shows "wpc (worker s) = W_terminated \<and> resolved (worker s) = resolved s
         \<and> dl_step e (worker s) = worker s"
  using assms by (simp add: worker_def dl_step_def)

subsection \<open>Progress of the executor\<close>















subsection \<open>The claims on the delegation lock\<close>



text \<open>
  C2, as the claim states it: a closure that throws still has its promise resolved, and
  the executor goes on. In the code nothing catches the exception: the first closure here
  throws, \<^verbatim>\<open>std::terminate\<close> ends the program with the promise unresolved, and the second
  submission is never taken.
\<close>

theorem C2_throwing_closure_counterexample:
  "wpc (dl_run [Submit (\<lambda>x. None), Worker, Worker, Worker, Worker, Worker,
                Submit (\<lambda>x. Some (x + 1)), Worker, Worker, Worker, Worker, Worker]
          (DelegationLock_new (0::int))) = W_terminated \<and>
   resolved (dl_run [Submit (\<lambda>x. None), Worker, Worker, Worker, Worker, Worker,
                Submit (\<lambda>x. Some (x + 1)), Worker, Worker, Worker, Worker, Worker]
          (DelegationLock_new (0::int))) = [] \<and>
   executed (dl_run [Submit (\<lambda>x. None), Worker, Worker, Worker, Worker, Worker,
                Submit (\<lambda>x. Some (x + 1)), Worker, Worker, Worker, Worker, Worker]
          (DelegationLock_new (0::int))) = [0]"
  by (simp add: dl_step_def DelegationLock_new_def worker_def async_def notify_one_def
      mutex_held_def)

text \<open>
  C2, amended: a closure that returns has its promise resolved exactly once, by the step
  after the call, and the executor is back at the top of its loop. The promise had not
  been resolved before, and no promise is ever resolved twice.
\<close>

theorem C2_returning_closure_resolved_once:
  assumes "s = dl_run es (DelegationLock_new p0)"
    and "wpc s = W_work" and "task s = Some t" and "work t (protected s) = Some p"
  shows "completion t \<notin> set (resolved s) \<and>
         resolved (worker (worker s)) = resolved s @ [completion t] \<and>
         distinct (resolved (worker (worker s))) \<and>
         protected (worker (worker s)) = p \<and>
         wpc (worker (worker s)) = W_loop"
proof -
  have inv: "dl_inv s" unfolding assms(1) by (rule dl_inv_run [OF dl_inv_new])
  have w: "resolved (worker (worker s)) = resolved s @ [completion t]"
      "protected (worker (worker s)) = p" "wpc (worker (worker s)) = W_loop"
    using assms(2-4) by (simp_all add: worker_def)
  from inv assms(2,3) have "resolved s @ [completion t] @ map completion (taskQueue s)
      = [0..<promises s]"
    by (auto simp: dl_inv_def cur_promise_def)
  then have "distinct (resolved s @ [completion t] @ map completion (taskQueue s))"
    by simp
  then have "completion t \<notin> set (resolved s)" "distinct (resolved s @ [completion t])"
    by auto
  with w show ?thesis by simp
qed

theorem C2_returning_closure_witness:
  "wpc (dl_run [Submit (\<lambda>x. Some (x + 1)), Worker, Worker, Worker, Worker]
          (DelegationLock_new (0::int))) = W_work \<and>
   resolved (worker (worker (dl_run [Submit (\<lambda>x. Some (x + 1)), Worker, Worker, Worker, Worker]
          (DelegationLock_new (0::int))))) = [0] \<and>
   protected (worker (worker (dl_run [Submit (\<lambda>x. Some (x + 1)), Worker, Worker, Worker, Worker]
          (DelegationLock_new (0::int))))) = 1 \<and>
   wpc (worker (worker (dl_run [Submit (\<lambda>x. Some (x + 1)), Worker, Worker, Worker, Worker]
          (DelegationLock_new (0::int))))) = W_loop"
proof -
  define s where "s = dl_run [Submit (\<lambda>x. Some (x + 1)), Worker, Worker, Worker, Worker]
          (DelegationLock_new (0::int))"
  have s: "s = \<lparr>taskQueue = [], running = True, wpc = W_work,
             task = Some \<lparr>work = (\<lambda>x. Some (x + 1)), completion = 0\<rparr>, protected = 0,
             promises = 1, executed = [], resolved = []\<rparr>"
    unfolding s_def
    by (simp add: dl_step_def DelegationLock_new_def worker_def async_def notify_one_def
        mutex_held_def)
  have h2: "wpc s = W_work" and h3: "task s = Some \<lparr>work = (\<lambda>x. Some (x + 1)), completion = 0\<rparr>"
    and h4: "work \<lparr>work = (\<lambda>x. Some (x + 1)), completion = 0\<rparr> (protected s) = Some 1"
    and r: "resolved s = []"
    by (simp_all add: s)
  from C2_returning_closure_resolved_once [OF s_def h2 h3 h4] h2 r
  show ?thesis unfolding s_def by simp
qed

text \<open>
  C3, as the claim states it: what is in the queue when shutdown is requested is still
  executed before the executor exits. Here one task is queued, the destructor stores
  \<^verbatim>\<open>running = false\<close> and notifies, and the executor, at its loop test, exits at once: the
  task stays in the queue, never called, its promise never resolved.
\<close>

theorem C3_shutdown_drops_queue_counterexample:
  "wpc (dl_run [Submit (\<lambda>x. Some (x + 1)), Stop, Notify, Worker]
          (DelegationLock_new (0::int))) = W_exited \<and>
   map completion (taskQueue (dl_run [Submit (\<lambda>x. Some (x + 1)), Stop, Notify, Worker]
          (DelegationLock_new (0::int)))) = [0] \<and>
   executed (dl_run [Submit (\<lambda>x. Some (x + 1)), Stop, Notify, Worker]
          (DelegationLock_new (0::int))) = [] \<and>
   resolved (dl_run [Submit (\<lambda>x. Some (x + 1)), Stop, Notify, Worker]
          (DelegationLock_new (0::int))) = []"
  by (simp add: dl_step_def DelegationLock_new_def worker_def async_def notify_one_def
      mutex_held_def)

text \<open>
  C3, amended: the executor exits exactly when it takes a step at its loop test or at the
  check after the wait and reads \<^verbatim>\<open>running\<close> as false, whatever the queue holds; the step
  that exits leaves the queue and both logs as they are.
\<close>

theorem C3_exit_on_stop_observed:
  assumes "wpc s \<noteq> W_exited"
  shows "(wpc (dl_step e s) = W_exited)
           = (e = Worker \<and> \<not> running s \<and> (wpc s = W_loop \<or> wpc s = W_check)) \<and>
         (wpc (dl_step e s) = W_exited \<longrightarrow>
            taskQueue (dl_step e s) = taskQueue s \<and> executed (dl_step e s) = executed s
            \<and> resolved (dl_step e s) = resolved s)"
proof (cases e)
  case (Submit w)
  then show ?thesis using assms
    by (auto simp: dl_step_def async_def notify_one_def)
next
  case Stop
  then show ?thesis using assms by (auto simp: dl_step_def)
next
  case Notify
  then show ?thesis using assms by (auto simp: dl_step_def notify_one_def)
next
  case Worker
  then show ?thesis using assms
    by (cases "wpc s") (auto simp: dl_step_def worker_def split: list.splits option.splits)
qed

theorem C3_exit_on_stop_witness:
  "wpc (dl_run [Submit (\<lambda>x. Some (x + 1)), Stop] (DelegationLock_new (0::int))) \<noteq> W_exited \<and>
   wpc (dl_step Worker (dl_run [Submit (\<lambda>x. Some (x + 1)), Stop] (DelegationLock_new (0::int))))
     = W_exited \<and>
   map completion (taskQueue (dl_step Worker
      (dl_run [Submit (\<lambda>x. Some (x + 1)), Stop] (DelegationLock_new (0::int))))) = [0] \<and>
   resolved (dl_step Worker
      (dl_run [Submit (\<lambda>x. Some (x + 1)), Stop] (DelegationLock_new (0::int)))) = []"
proof -
  define s where "s = dl_run [Submit (\<lambda>x. Some (x + 1)), Stop] (DelegationLock_new (0::int))"
  have s: "s = \<lparr>taskQueue = [\<lparr>work = (\<lambda>x. Some (x + 1)), completion = 0\<rparr>], running = False,
             wpc = W_loop, task = None, protected = 0, promises = 1, executed = [],
             resolved = []\<rparr>"
    unfolding s_def
    by (simp add: dl_step_def DelegationLock_new_def async_def notify_one_def mutex_held_def)
  have h: "wpc s \<noteq> W_exited" by (simp add: s)
  have q: "map completion (taskQueue s) = [0]" "resolved s = []" "\<not> running s" "wpc s = W_loop"
    by (simp_all add: s)
  from C3_exit_on_stop_observed [OF h, of Worker] h q
  show ?thesis unfolding s_def by simp
qed


section \<open>The bakery program: proofs\<close>

subsection \<open>The effect of a step\<close>

lemma value_at_vals: "m x \<noteq> [] \<Longrightarrow> value_at m x = last (vals m x)"
  by (simp add: value_at_def vals_def last_map)

lemma vals_perform:
  assumes "\<forall>x. vals m x \<noteq> []"
  shows "vals (snd (snd (perform (access_of n t th) c vw m))) y = vals m y @ appended t th m y"
  using assms
  by (cases "pc th")
     (auto simp: vals_def perform_def access_of_def effect_def appended_def rmw_def Let_def
       last_map split: memory_order.splits option.splits)

lemma read_scan:
  assumes "\<forall>x. vals m x \<noteq> []" and "pc th = Scan" and "scan_i th < n"
  shows "fst (perform (access_of n t th) c vw m) \<in> set (vals m (Number (scan_i th)))"
  using assms
  by (auto simp: vals_def perform_def access_of_def latest_def Let_def split: option.splits)

lemma step_unfold:
  assumes "t < length (threads s)" and "length (views s) = length (threads s)"
  shows "step n k (t, c) s =
         s\<lparr>threads := (threads s)[t := after n k t (threads s ! t)
               (fst (perform (access_of n t (threads s ! t)) c (views s ! t) (memory s)))],
           views := (views s)[t := fst (snd (perform (access_of n t (threads s ! t)) c
               (views s ! t) (memory s)))],
           memory := snd (snd (perform (access_of n t (threads s ! t)) c (views s ! t)
               (memory s)))\<rparr>"
  using assms by (simp add: step_def Let_def)

lemma sum_list_update_int:
  fixes f :: "'a \<Rightarrow> int"
  shows "t < length xs \<Longrightarrow>
         sum_list (map f (xs[t := y])) = sum_list (map f xs) - f (xs ! t) + f y"
  by (induction xs arbitrary: t) (auto split: nat.splits)

lemma sum_list_bound:
  fixes f :: "'a \<Rightarrow> int"
  shows "t < length xs \<Longrightarrow> \<forall>i < length xs. f (xs ! i) \<le> K \<Longrightarrow>
         sum_list (map f xs) \<le> (int (length xs) - 1) * K + f (xs ! t)"
proof (induction xs arbitrary: t)
  case Nil
  then show ?case by simp
next
  case (Cons x xs)
  have all: "\<forall>i < length xs. f (xs ! i) \<le> K" using Cons.prems(2) by fastforce
  have x: "f x \<le> K" using Cons.prems(2) by fastforce
  have le: "sum_list (map f xs) \<le> int (length xs) * K"
    using all by (induction xs) (fastforce simp: algebra_simps)+
  show ?case
  proof (cases t)
    case 0
    then show ?thesis using le by (simp add: algebra_simps)
  next
    case (Suc t')
    then have "sum_list (map f xs) \<le> (int (length xs) - 1) * K + f (xs ! t')"
      using Cons.IH [of t'] Cons.prems(1) all by simp
    then show ?thesis using Suc x by (simp add: algebra_simps)
  qed
qed

subsection \<open>The harness\<close>

lemma harness_inv_init: "harness_inv n k (init n)"
  by (auto simp: harness_inv_def init_def iteration_ok_def thread_new_def inside_def
      counted_def vals_def initial_value_def sum_list_replicate)

lemma iteration_ok_after: "iteration_ok k th \<Longrightarrow> iteration_ok k (after n k t th v)"
  by (cases "pc th") (auto simp: iteration_ok_def after_def)

lemma inside_after:
  "(if inside (after n k t th v) then 1 else 0)
     = (if inside th then 1 else 0)
       + (if pc th = Enter then 1 else if pc th = Leave then - 1 else (0::int))"
  by (cases "pc th") (auto simp: inside_def after_def)

lemma counted_after:
  "counted (after n k t th v) = counted th + (if pc th = Count then 1 else 0)"
  by (cases "pc th") (auto simp: counted_def after_def)

lemma harness_inv_step:
  assumes inv: "harness_inv n k s"
  shows "harness_inv n k (step n k tc s)"
proof (cases "fst tc < n")
  case False
  then show ?thesis using inv by (simp add: step_def harness_inv_def)
next
  case True
  define t where "t = fst tc"
  define th where "th = threads s ! t"
  define m where "m = memory s"
  define r where "r = perform (access_of n t th) (snd tc) (views s ! t) m"
  define th' where "th' = after n k t th (fst r)"
  define m' where "m' = snd (snd r)"
  have t: "t < n" using True by (simp add: t_def)
  have len: "length (threads s) = n" "length (views s) = n"
    using inv by (simp_all add: harness_inv_def)
  have ne: "\<forall>x. vals m x \<noteq> []" using inv by (simp add: harness_inv_def m_def)
  have it: "\<forall>i < n. iteration_ok k (threads s ! i)" using inv by (simp add: harness_inv_def)
  have vi: "\<forall>v \<in> set (tl (vals m Mutual_exclusion_violated)). v = VBool True"
    using inv by (simp add: harness_inv_def m_def)
  have ins: "as_int (last (vals m Inside_critical_section_count))
               = sum_list (map (\<lambda>th. if inside th then 1 else 0) (threads s))"
    using inv by (simp add: harness_inv_def m_def)
  have cnt: "as_int (last (vals m Shared_counter)) = sum_list (map counted (threads s))"
    using inv by (simp add: harness_inv_def m_def)
  have "step n k (t, snd tc) s = s\<lparr>threads := (threads s)[t := th'],
          views := (views s)[t := fst (snd r)], memory := m'\<rparr>"
    using t len by (simp add: step_unfold th_def r_def th'_def m'_def m_def)
  then have st: "step n k tc s = s\<lparr>threads := (threads s)[t := th'],
          views := (views s)[t := fst (snd r)], memory := m'\<rparr>"
    by (simp add: t_def)
  have v': "vals m' y = vals m y @ appended t th m y" for y
    unfolding m'_def r_def by (rule vals_perform [OF ne])
  have c1: "\<forall>x. vals m' x \<noteq> []" using ne by (simp add: v')
  have c2: "\<forall>i < n. iteration_ok k ((threads s)[t := th'] ! i)"
  proof (intro allI impI)
    fix i assume i: "i < n"
    show "iteration_ok k ((threads s)[t := th'] ! i)"
    proof (cases "i = t")
      case True
      then show ?thesis using it t len by (simp add: th'_def th_def iteration_ok_after)
    next
      case False
      then show ?thesis using it i by simp
    qed
  qed
  have c5: "\<forall>v \<in> set (tl (vals m' Mutual_exclusion_violated)). v = VBool True"
    using vi ne by (cases "pc th") (auto simp: v' appended_def effect_def)
  have c6: "as_int (last (vals m' Inside_critical_section_count))
              = sum_list (map (\<lambda>th. if inside th then 1 else 0) ((threads s)[t := th']))"
    using ins t len
    by (cases "pc th")
       (auto simp: v' appended_def effect_def sum_list_update_int th'_def inside_after
         th_def [symmetric])
  have c7: "as_int (last (vals m' Shared_counter)) = sum_list (map counted ((threads s)[t := th']))"
    using cnt t len
    by (cases "pc th")
       (auto simp: v' appended_def effect_def sum_list_update_int th'_def counted_after
         th_def [symmetric])
  show ?thesis
    unfolding st harness_inv_def using len c1 c2 c5 c6 c7 by simp
qed

lemma harness_inv_run: "harness_inv n k s \<Longrightarrow> harness_inv n k (run n k sched s)"
  by (induction sched arbitrary: s) (auto simp: harness_inv_step)

lemma sum_list_indicator:
  "sum_list (map (\<lambda>x. if P x then 1 else 0) xs) = int (length (filter P xs))"
  by (induction xs) auto

lemma sum_list_all_eq:
  fixes f :: "'a \<Rightarrow> int"
  shows "\<forall>i < length xs. f (xs ! i) = c \<Longrightarrow> sum_list (map f xs) = int (length xs) * c"
proof (induction xs)
  case Nil
  then show ?case by simp
next
  case (Cons x xs)
  have "f x = c" using Cons.prems by fastforce
  moreover have "\<forall>i < length xs. f (xs ! i) = c" using Cons.prems by fastforce
  ultimately show ?case using Cons.IH by (simp add: algebra_simps)
qed

text \<open>Every increment of \<^verbatim>\<open>shared_counter\<close> is an atomic fetch-and-add, so none is lost:
  once the threads are joined the counter is the number of threads times the number of
  iterations, in every run.\<close>

lemma exact_accounting:
  assumes "joined (run n k sched (init n))"
  shows "as_int (value_at (memory (run n k sched (init n))) Shared_counter) = int n * int k"
proof -
  define s where "s = run n k sched (init n)"
  have inv: "harness_inv n k s" unfolding s_def by (rule harness_inv_run [OF harness_inv_init])
  have len: "length (threads s) = n" using inv by (simp add: harness_inv_def)
  have j: "\<forall>i < n. pc (threads s ! i) = Done"
    using assms len by (simp add: joined_def s_def [symmetric] list_all_length)
  have "\<forall>i < length (threads s). counted (threads s ! i) = int k"
    using inv j len by (auto simp: harness_inv_def iteration_ok_def counted_def)
  then have "sum_list (map counted (threads s)) = int n * int k"
    using sum_list_all_eq [of "threads s" counted "int k"] len by simp
  then have a: "as_int (last (vals (memory s) Shared_counter)) = int n * int k"
    using inv by (simp add: harness_inv_def)
  have ne: "memory s Shared_counter \<noteq> []" using inv by (auto simp: harness_inv_def vals_def)
  show ?thesis
    using a value_at_vals [of "memory s" Shared_counter, OF ne] unfolding s_def by simp
qed

subsection \<open>The tickets\<close>

lemma ticket_inv_init: "ticket_inv n (init n)"
  by (auto simp: ticket_inv_def init_def thread_ok_def thread_new_def taken_def holding_def
      ticket_of_def vals_def initial_value_def doorway_def sum_list_replicate)

lemma taken_le: "iteration_ok k th \<Longrightarrow> taken th \<le> int k"
  by (auto simp: iteration_ok_def taken_def holding_def)

lemma take_no_overflow:
  assumes h: "harness_inv n k s" and inv: "ticket_inv n s"
    and nk: "int n * int k \<le> INT_MAX" and t: "t < n" and pc: "pc (threads s ! t) = Take"
  shows "max_num (threads s ! t) < INT_MAX"
proof -
  let ?ts = "threads s"
  have len: "length ?ts = n" using h by (simp add: harness_inv_def)
  have ok: "\<forall>i < length ?ts. iteration_ok k (?ts ! i)"
    using h len by (simp add: harness_inv_def)
  then have "\<forall>i < length ?ts. taken (?ts ! i) \<le> int k" by (blast intro: taken_le)
  then have "sum_list (map taken ?ts) \<le> (int (length ?ts) - 1) * int k + taken (?ts ! t)"
    using t len by (intro sum_list_bound) simp_all
  moreover have "taken (?ts ! t) = int (iteration (?ts ! t))"
    using pc by (simp add: taken_def holding_def)
  moreover have "iteration (?ts ! t) < k" using ok t len pc by (auto simp: iteration_ok_def)
  ultimately have "sum_list (map taken ?ts) < int n * int k" using len
    by (simp add: algebra_simps)
  moreover have "max_num (?ts ! t) \<le> sum_list (map taken ?ts)"
    using inv t by (auto simp: ticket_inv_def thread_ok_def)
  ultimately show ?thesis using nk by simp
qed

lemma thread_ok_mono: "thread_ok b th \<Longrightarrow> b \<le> b' \<Longrightarrow> thread_ok b' th"
  by (auto simp: thread_ok_def)

lemma after_ok:
  assumes "thread_ok b th" and "pc th = Take \<longrightarrow> max_num th < INT_MAX"
    and "pc th = Scan \<longrightarrow> as_int v \<le> b"
  shows "thread_ok b (after n k t th v)"
  using assms by (cases "pc th") (auto simp: thread_ok_def after_def)

lemma taken_after:
  assumes "pc th = Take \<longrightarrow> max_num th < INT_MAX"
  shows "taken (after n k t th v) = taken th + (if pc th = Take then 1 else 0)"
  using assms by (cases "pc th") (auto simp: taken_def holding_def after_def)

lemma doorway_after:
  assumes "pc th = Take \<longrightarrow> max_num th < INT_MAX"
  shows "doorway (after n k t th v)
     = (if pc th = Choose then True else if pc th = Chosen then False else doorway th)"
  using assms by (cases "pc th") (auto simp: doorway_def after_def)

lemma ticket_of_after:
  assumes "pc th = Take \<longrightarrow> max_num th < INT_MAX"
  shows "ticket_of (after n k t th v)
     = (if pc th = Take then max_num th + 1 else if pc th = Unlock then 0 else ticket_of th)"
  using assms by (cases "pc th") (auto simp: ticket_of_def holding_def after_def)

lemma ticket_inv_step:
  assumes h: "harness_inv n k s" and inv: "ticket_inv n s"
    and nk: "int n * int k \<le> INT_MAX"
  shows "ticket_inv n (step n k tc s)"
proof (cases "fst tc < n")
  case False
  then show ?thesis using inv h by (simp add: step_def harness_inv_def)
next
  case True
  define t where "t = fst tc"
  define th where "th = threads s ! t"
  define m where "m = memory s"
  define r where "r = perform (access_of n t th) (snd tc) (views s ! t) m"
  define th' where "th' = after n k t th (fst r)"
  define m' where "m' = snd (snd r)"
  define b where "b = sum_list (map taken (threads s))"
  define b' where "b' = sum_list (map taken ((threads s)[t := th']))"
  have t: "t < n" using True by (simp add: t_def)
  have len: "length (threads s) = n" "length (views s) = n"
    using h by (simp_all add: harness_inv_def)
  have ne: "\<forall>x. vals m x \<noteq> []" using h by (simp add: harness_inv_def m_def)
  have ok: "\<forall>i < n. thread_ok b (threads s ! i)" using inv by (simp add: ticket_inv_def b_def)
  have num: "\<forall>i. \<forall>v \<in> set (vals m (Number i)). \<exists>x. v = VInt x \<and> 0 \<le> x \<and> x \<le> b"
    using inv by (simp add: ticket_inv_def b_def m_def)
  have ch: "\<forall>i < n. last (vals m (Choosing i)) = VBool (doorway (threads s ! i))"
    using inv by (simp add: ticket_inv_def m_def)
  have tk: "\<forall>i < n. last (vals m (Number i)) = VInt (ticket_of (threads s ! i))"
    using inv by (simp add: ticket_inv_def m_def)
  have ov: "pc th = Take \<longrightarrow> max_num th < INT_MAX"
    using take_no_overflow [OF h inv nk t] by (simp add: th_def)
  have "step n k (t, snd tc) s = s\<lparr>threads := (threads s)[t := th'],
          views := (views s)[t := fst (snd r)], memory := m'\<rparr>"
    using t len by (simp add: step_unfold th_def r_def th'_def m'_def m_def)
  then have st: "step n k tc s = s\<lparr>threads := (threads s)[t := th'],
          views := (views s)[t := fst (snd r)], memory := m'\<rparr>"
    by (simp add: t_def)
  have v': "vals m' y = vals m y @ appended t th m y" for y
    unfolding m'_def r_def by (rule vals_perform [OF ne])
  have "taken th' = taken th + (if pc th = Take then 1 else 0)"
    unfolding th'_def by (rule taken_after [OF ov])
  then have b': "b' = b + (if pc th = Take then 1 else 0)"
    using t len by (simp add: b'_def b_def sum_list_update_int th_def)
  have bb: "b \<le> b'" using b' by simp
  have okt: "thread_ok b th" using ok t by (simp add: th_def)
  have b0: "0 \<le> b" using okt by (auto simp: thread_ok_def)
  have rd: "pc th = Scan \<longrightarrow> as_int (fst r) \<le> b"
  proof
    assume sc: "pc th = Scan"
    show "as_int (fst r) \<le> b"
    proof (cases "scan_i th < n")
      case True
      then have "fst r \<in> set (vals m (Number (scan_i th)))"
        unfolding r_def using read_scan [OF ne sc] by simp
      then show ?thesis using num by fastforce
    next
      case False
      then show ?thesis using sc b0 by (simp add: r_def access_of_def perform_def)
    qed
  qed
  have okt': "thread_ok b' th'"
    unfolding th'_def using after_ok [OF okt ov rd] bb by (rule thread_ok_mono)
  have c2: "\<forall>i < n. thread_ok b' ((threads s)[t := th'] ! i)"
  proof (intro allI impI)
    fix i assume i: "i < n"
    show "thread_ok b' ((threads s)[t := th'] ! i)"
    proof (cases "i = t")
      case True
      then show ?thesis using okt' t len by simp
    next
      case False
      then have "(threads s)[t := th'] ! i = threads s ! i" by simp
      moreover have "thread_ok b' (threads s ! i)"
        using ok i bb by (blast intro: thread_ok_mono)
      ultimately show ?thesis by simp
    qed
  qed
  have c3: "\<forall>i. \<forall>v \<in> set (vals m' (Number i)). \<exists>x. v = VInt x \<and> 0 \<le> x \<and> x \<le> b'"
  proof (intro allI ballI)
    fix i v assume "v \<in> set (vals m' (Number i))"
    then consider "v \<in> set (vals m (Number i))" | "effect t th m = Some (Number i, v)"
      by (auto simp: v' appended_def split: option.splits if_splits)
    then show "\<exists>x. v = VInt x \<and> 0 \<le> x \<and> x \<le> b'"
    proof cases
      case 1
      then show ?thesis using num bb by fastforce
    next
      case 2
      then have "(pc th = Take \<and> v = VInt (max_num th + 1)) \<or> (pc th = Unlock \<and> v = VInt 0)"
        by (cases "pc th") (auto simp: effect_def split: if_splits)
      then show ?thesis using okt b' b0 by (auto simp: thread_ok_def)
    qed
  qed
  have dw: "doorway th' = (if pc th = Choose then True else if pc th = Chosen then False
                           else doorway th)"
    unfolding th'_def by (rule doorway_after [OF ov])
  have c4: "\<forall>i < n. last (vals m' (Choosing i)) = VBool (doorway ((threads s)[t := th'] ! i))"
  proof (intro allI impI)
    fix i assume i: "i < n"
    show "last (vals m' (Choosing i)) = VBool (doorway ((threads s)[t := th'] ! i))"
    proof (cases "i = t")
      case True
      have "last (vals m (Choosing t)) = VBool (doorway th)" using ch t by (simp add: th_def)
      then show ?thesis using True t len dw
        by (cases "pc th") (auto simp: v' appended_def effect_def)
    next
      case False
      have "vals m' (Choosing i) = vals m (Choosing i)" using False
        by (cases "pc th") (auto simp: v' appended_def effect_def)
      then show ?thesis using False ch i by simp
    qed
  qed
  have tf: "ticket_of th' = (if pc th = Take then max_num th + 1
                             else if pc th = Unlock then 0 else ticket_of th)"
    unfolding th'_def by (rule ticket_of_after [OF ov])
  have c5: "\<forall>i < n. last (vals m' (Number i)) = VInt (ticket_of ((threads s)[t := th'] ! i))"
  proof (intro allI impI)
    fix i assume i: "i < n"
    show "last (vals m' (Number i)) = VInt (ticket_of ((threads s)[t := th'] ! i))"
    proof (cases "i = t")
      case True
      have "last (vals m (Number t)) = VInt (ticket_of th)" using tk t by (simp add: th_def)
      then show ?thesis using True t len tf ov
        by (cases "pc th") (auto simp: v' appended_def effect_def)
    next
      case False
      have "vals m' (Number i) = vals m (Number i)" using False
        by (cases "pc th") (auto simp: v' appended_def effect_def)
      then show ?thesis using False tk i by simp
    qed
  qed
  show ?thesis
    unfolding st ticket_inv_def using c2 c3 c4 c5 by (simp add: b'_def)
qed

lemma invariants_run:
  assumes "harness_inv n k s" and "ticket_inv n s" and "int n * int k \<le> INT_MAX"
  shows "harness_inv n k (run n k sched s) \<and> ticket_inv n (run n k sched s)"
  using assms
  by (induction sched arbitrary: s) (auto simp: harness_inv_step ticket_inv_step)

lemma invariants_reachable:
  assumes "int n * int k \<le> INT_MAX"
  shows "harness_inv n k (run n k sched (init n))" and "ticket_inv n (run n k sched (init n))"
  using invariants_run [OF harness_inv_init ticket_inv_init assms] by simp_all

subsection \<open>The class \<^verbatim>\<open>BakeryLock\<close>\<close>

lemma b_vals_perform:
  assumes "\<forall>x. vals m x \<noteq> []"
  shows "vals (snd (snd (perform (BakeryLock_access_of n t th) c vw m))) y
         = vals m y @ b_appended t th m y"
  using assms
  by (cases "bpc th")
     (auto simp: vals_def perform_def BakeryLock_access_of_def b_effect_def b_appended_def
       rmw_def Let_def last_map split: memory_order.splits option.splits)

lemma b_read_latest:
  assumes "\<forall>x. vals m x \<noteq> []" and "BakeryLock_access_of n t th = Load x ord"
  shows "fst (perform (BakeryLock_access_of n t th) c vw m) = last (vals m x)"
proof -
  have "ord = memory_order_seq_cst"
    using assms(2)
    by (cases "bpc th") (auto simp: BakeryLock_access_of_def split: if_splits)
  then show ?thesis using assms by (simp add: perform_def vals_def last_map)
qed

lemma b_step_unfold:
  assumes "t < length (bthreads s)" and "length (bviews s) = length (bthreads s)"
  shows "BakeryLock_step n k (t, c) s =
         s\<lparr>bthreads := (bthreads s)[t := BakeryLock_after n k t (bthreads s ! t)
               (fst (perform (BakeryLock_access_of n t (bthreads s ! t)) c (bviews s ! t)
                  (bmemory s)))],
           bviews := (bviews s)[t := fst (snd (perform (BakeryLock_access_of n t (bthreads s ! t))
               c (bviews s ! t) (bmemory s)))],
           bmemory := snd (snd (perform (BakeryLock_access_of n t (bthreads s ! t)) c
               (bviews s ! t) (bmemory s)))\<rparr>"
  using assms by (simp add: BakeryLock_step_def Let_def)

lemma BakeryLock_inv_new: "BakeryLock_inv n k (BakeryLock_new n)"
  by (auto simp: BakeryLock_inv_def BakeryLock_new_def b_thread_ok_def bthread_new_def
      b_taken_def b_holding_def b_ticket_of_def b_counted_def vals_def initial_value_def
      b_doorway_def sum_list_replicate)

lemma b_taken_le: "b_thread_ok k b th \<Longrightarrow> b_taken th \<le> int k"
  by (auto simp: b_thread_ok_def b_taken_def b_holding_def)

lemma b_take_no_overflow:
  assumes inv: "BakeryLock_inv n k s"
    and nk: "int n * int k \<le> INT_MAX" and t: "t < n" and pc: "bpc (bthreads s ! t) = B_take"
  shows "max_ticket (bthreads s ! t) < INT_MAX"
proof -
  let ?ts = "bthreads s"
  have len: "length ?ts = n" using inv by (simp add: BakeryLock_inv_def)
  have ok: "\<forall>i < length ?ts. b_thread_ok k (sum_list (map b_taken ?ts)) (?ts ! i)"
    using inv len by (simp add: BakeryLock_inv_def)
  then have "\<forall>i < length ?ts. b_taken (?ts ! i) \<le> int k" by (blast intro: b_taken_le)
  then have "sum_list (map b_taken ?ts) \<le> (int (length ?ts) - 1) * int k + b_taken (?ts ! t)"
    using t len by (intro sum_list_bound) simp_all
  moreover have "b_taken (?ts ! t) = int (operation (?ts ! t))"
    using pc by (simp add: b_taken_def b_holding_def)
  moreover have "operation (?ts ! t) < k" using ok t len pc by (auto simp: b_thread_ok_def)
  ultimately have "sum_list (map b_taken ?ts) < int n * int k" using len
    by (simp add: algebra_simps)
  moreover have "max_ticket (?ts ! t) \<le> sum_list (map b_taken ?ts)"
    using ok t len by (auto simp: b_thread_ok_def)
  ultimately show ?thesis using nk by simp
qed

lemma b_thread_ok_mono: "b_thread_ok k b th \<Longrightarrow> b \<le> b' \<Longrightarrow> b_thread_ok k b' th"
  by (auto simp: b_thread_ok_def)

lemma b_after_ok:
  assumes "b_thread_ok k b th" and "bpc th = B_take \<longrightarrow> max_ticket th < INT_MAX"
    and "bpc th = B_scan \<longrightarrow> as_int v \<le> b"
  shows "b_thread_ok k b (BakeryLock_after n k t th v)"
  using assms by (cases "bpc th") (auto simp: b_thread_ok_def BakeryLock_after_def)

lemma b_taken_after:
  assumes "bpc th = B_take \<longrightarrow> max_ticket th < INT_MAX"
  shows "b_taken (BakeryLock_after n k t th v) = b_taken th + (if bpc th = B_take then 1 else 0)"
  using assms by (cases "bpc th") (auto simp: b_taken_def b_holding_def BakeryLock_after_def)

lemma b_counted_after:
  "b_counted (BakeryLock_after n k t th v)
     = b_counted th + (if bpc th = B_critical then 1 else 0)"
  by (cases "bpc th") (auto simp: b_counted_def BakeryLock_after_def)

lemma b_doorway_after:
  assumes "bpc th = B_take \<longrightarrow> max_ticket th < INT_MAX"
  shows "b_doorway (BakeryLock_after n k t th v)
     = (if bpc th = B_choose then True else if bpc th = B_chosen then False else b_doorway th)"
  using assms by (cases "bpc th") (auto simp: b_doorway_def BakeryLock_after_def)

lemma b_ticket_of_after:
  assumes "bpc th = B_take \<longrightarrow> max_ticket th < INT_MAX"
  shows "b_ticket_of (BakeryLock_after n k t th v)
     = (if bpc th = B_take then max_ticket th + 1 else if bpc th = B_unlock then 0
        else b_ticket_of th)"
  using assms
  by (cases "bpc th") (auto simp: b_ticket_of_def b_holding_def BakeryLock_after_def)

lemma BakeryLock_inv_step:
  assumes inv: "BakeryLock_inv n k s" and nk: "int n * int k \<le> INT_MAX"
  shows "BakeryLock_inv n k (BakeryLock_step n k tc s)"
proof (cases "fst tc < n")
  case False
  then show ?thesis using inv by (simp add: BakeryLock_step_def BakeryLock_inv_def)
next
  case True
  define t where "t = fst tc"
  define th where "th = bthreads s ! t"
  define m where "m = bmemory s"
  define r where "r = perform (BakeryLock_access_of n t th) (snd tc) (bviews s ! t) m"
  define th' where "th' = BakeryLock_after n k t th (fst r)"
  define m' where "m' = snd (snd r)"
  define b where "b = sum_list (map b_taken (bthreads s))"
  define b' where "b' = sum_list (map b_taken ((bthreads s)[t := th']))"
  have t: "t < n" using True by (simp add: t_def)
  have len: "length (bthreads s) = n" "length (bviews s) = n"
    using inv by (simp_all add: BakeryLock_inv_def)
  have ne: "\<forall>x. vals m x \<noteq> []" using inv by (simp add: BakeryLock_inv_def m_def)
  have ok: "\<forall>i < n. b_thread_ok k b (bthreads s ! i)"
    using inv by (simp add: BakeryLock_inv_def b_def)
  have num: "\<forall>i. \<forall>v \<in> set (vals m (Number i)). \<exists>x. v = VInt x \<and> 0 \<le> x \<and> x \<le> b"
    using inv by (simp add: BakeryLock_inv_def b_def m_def)
  have ch: "\<forall>i < n. last (vals m (Choosing i)) = VBool (b_doorway (bthreads s ! i))"
    using inv by (simp add: BakeryLock_inv_def m_def)
  have tk: "\<forall>i < n. last (vals m (Number i)) = VInt (b_ticket_of (bthreads s ! i))"
    using inv by (simp add: BakeryLock_inv_def m_def)
  have cnt: "as_int (last (vals m Shared_counter)) = sum_list (map b_counted (bthreads s))"
    using inv by (simp add: BakeryLock_inv_def m_def)
  have ov: "bpc th = B_take \<longrightarrow> max_ticket th < INT_MAX"
    using b_take_no_overflow [OF inv nk t] by (simp add: th_def)
  have "BakeryLock_step n k (t, snd tc) s = s\<lparr>bthreads := (bthreads s)[t := th'],
          bviews := (bviews s)[t := fst (snd r)], bmemory := m'\<rparr>"
    using t len by (simp add: b_step_unfold th_def r_def th'_def m'_def m_def)
  then have st: "BakeryLock_step n k tc s = s\<lparr>bthreads := (bthreads s)[t := th'],
          bviews := (bviews s)[t := fst (snd r)], bmemory := m'\<rparr>"
    by (simp add: t_def)
  have v': "vals m' y = vals m y @ b_appended t th m y" for y
    unfolding m'_def r_def by (rule b_vals_perform [OF ne])
  have "b_taken th' = b_taken th + (if bpc th = B_take then 1 else 0)"
    unfolding th'_def by (rule b_taken_after [OF ov])
  then have b': "b' = b + (if bpc th = B_take then 1 else 0)"
    using t len by (simp add: b'_def b_def sum_list_update_int th_def)
  have bb: "b \<le> b'" using b' by simp
  have okt: "b_thread_ok k b th" using ok t by (simp add: th_def)
  have b0: "0 \<le> b" using okt by (auto simp: b_thread_ok_def)
  have rd: "bpc th = B_scan \<longrightarrow> as_int (fst r) \<le> b"
  proof
    assume sc: "bpc th = B_scan"
    show "as_int (fst r) \<le> b"
    proof (cases "b_scan_i th < n")
      case True
      then have acc: "BakeryLock_access_of n t th
          = Load (Number (b_scan_i th)) memory_order_seq_cst"
        using sc by (simp add: BakeryLock_access_of_def)
      have "fst r = last (vals m (Number (b_scan_i th)))"
        unfolding r_def by (rule b_read_latest [OF ne acc])
      moreover have "last (vals m (Number (b_scan_i th))) \<in> set (vals m (Number (b_scan_i th)))"
        using ne by simp
      ultimately show ?thesis using num by fastforce
    next
      case False
      then show ?thesis using sc b0 by (simp add: r_def BakeryLock_access_of_def perform_def)
    qed
  qed
  have okt': "b_thread_ok k b' th'"
    unfolding th'_def using b_after_ok [OF okt ov rd] bb by (rule b_thread_ok_mono)
  have c1: "\<forall>x. vals m' x \<noteq> []" using ne by (simp add: v')
  have c2: "\<forall>i < n. b_thread_ok k b' ((bthreads s)[t := th'] ! i)"
  proof (intro allI impI)
    fix i assume i: "i < n"
    show "b_thread_ok k b' ((bthreads s)[t := th'] ! i)"
    proof (cases "i = t")
      case True
      then show ?thesis using okt' t len by simp
    next
      case False
      then have "(bthreads s)[t := th'] ! i = bthreads s ! i" by simp
      moreover have "b_thread_ok k b' (bthreads s ! i)"
        using ok i bb by (blast intro: b_thread_ok_mono)
      ultimately show ?thesis by simp
    qed
  qed
  have c3: "\<forall>i. \<forall>v \<in> set (vals m' (Number i)). \<exists>x. v = VInt x \<and> 0 \<le> x \<and> x \<le> b'"
  proof (intro allI ballI)
    fix i v assume "v \<in> set (vals m' (Number i))"
    then consider "v \<in> set (vals m (Number i))" | "b_effect t th m = Some (Number i, v)"
      by (auto simp: v' b_appended_def split: option.splits if_splits)
    then show "\<exists>x. v = VInt x \<and> 0 \<le> x \<and> x \<le> b'"
    proof cases
      case 1
      then show ?thesis using num bb by fastforce
    next
      case 2
      then have "(bpc th = B_take \<and> v = VInt (max_ticket th + 1))
                 \<or> (bpc th = B_unlock \<and> v = VInt 0)"
        by (cases "bpc th") (auto simp: b_effect_def split: if_splits)
      then show ?thesis using okt b' b0 by (auto simp: b_thread_ok_def)
    qed
  qed
  have dw: "b_doorway th' = (if bpc th = B_choose then True else if bpc th = B_chosen then False
                             else b_doorway th)"
    unfolding th'_def by (rule b_doorway_after [OF ov])
  have c4: "\<forall>i < n. last (vals m' (Choosing i)) = VBool (b_doorway ((bthreads s)[t := th'] ! i))"
  proof (intro allI impI)
    fix i assume i: "i < n"
    show "last (vals m' (Choosing i)) = VBool (b_doorway ((bthreads s)[t := th'] ! i))"
    proof (cases "i = t")
      case True
      have "last (vals m (Choosing t)) = VBool (b_doorway th)" using ch t by (simp add: th_def)
      then show ?thesis using True t len dw
        by (cases "bpc th") (auto simp: v' b_appended_def b_effect_def)
    next
      case False
      have "vals m' (Choosing i) = vals m (Choosing i)" using False
        by (cases "bpc th") (auto simp: v' b_appended_def b_effect_def)
      then show ?thesis using False ch i by simp
    qed
  qed
  have tf: "b_ticket_of th' = (if bpc th = B_take then max_ticket th + 1
                               else if bpc th = B_unlock then 0 else b_ticket_of th)"
    unfolding th'_def by (rule b_ticket_of_after [OF ov])
  have c5: "\<forall>i < n. last (vals m' (Number i)) = VInt (b_ticket_of ((bthreads s)[t := th'] ! i))"
  proof (intro allI impI)
    fix i assume i: "i < n"
    show "last (vals m' (Number i)) = VInt (b_ticket_of ((bthreads s)[t := th'] ! i))"
    proof (cases "i = t")
      case True
      have "last (vals m (Number t)) = VInt (b_ticket_of th)" using tk t by (simp add: th_def)
      then show ?thesis using True t len tf ov
        by (cases "bpc th") (auto simp: v' b_appended_def b_effect_def)
    next
      case False
      have "vals m' (Number i) = vals m (Number i)" using False
        by (cases "bpc th") (auto simp: v' b_appended_def b_effect_def)
      then show ?thesis using False tk i by simp
    qed
  qed
  have c6: "as_int (last (vals m' Shared_counter))
              = sum_list (map b_counted ((bthreads s)[t := th']))"
    using cnt t len
    by (cases "bpc th")
       (auto simp: v' b_appended_def b_effect_def sum_list_update_int th'_def b_counted_after
         th_def [symmetric])
  show ?thesis
    unfolding st BakeryLock_inv_def using len c1 c2 c3 c4 c5 c6 by (simp add: b'_def)
qed

lemma BakeryLock_inv_run:
  assumes "BakeryLock_inv n k s" and "int n * int k \<le> INT_MAX"
  shows "BakeryLock_inv n k (BakeryLock_run n k sched s)"
  using assms by (induction sched arbitrary: s) (auto simp: BakeryLock_inv_step)

lemma BakeryLock_inv_reachable:
  assumes "int n * int k \<le> INT_MAX"
  shows "BakeryLock_inv n k (BakeryLock_run n k sched (BakeryLock_new n))"
  by (rule BakeryLock_inv_run [OF BakeryLock_inv_new assms])

text \<open>Every access \<^verbatim>\<open>BakeryLock\<close> and its test make to the atomic objects is sequentially
  consistent.\<close>

lemma BakeryLock_all_seq_cst:
  "BakeryLock_access_of n t th \<noteq> Load x memory_order_relaxed \<and>
   BakeryLock_access_of n t th \<noteq> Store x v memory_order_relaxed \<and>
   BakeryLock_access_of n t th \<noteq> Fetch_add x d memory_order_relaxed \<and>
   BakeryLock_access_of n t th \<noteq> Fetch_sub x d memory_order_relaxed"
  by (cases "bpc th") (auto simp: BakeryLock_access_of_def)

lemma b_exec_append:
  "BakeryLock_exec n k t (vs @ ws) th
     = (fst (BakeryLock_exec n k t vs th)
          @ fst (BakeryLock_exec n k t ws (snd (BakeryLock_exec n k t vs th))),
        snd (BakeryLock_exec n k t ws (snd (BakeryLock_exec n k t vs th))))"
  by (induction vs arbitrary: th) simp_all

lemma b_scan_max:
  fixes m0 :: int
  shows "foldl max m0 rs = Max (insert m0 (set rs))"
proof (induction rs arbitrary: m0)
  case Nil
  then show ?case by simp
next
  case (Cons r rs)
  have "Max (insert (max m0 r) (set rs)) = Max (insert m0 (insert r (set rs)))"
    by (cases "set rs = {}") (simp_all add: max.assoc)
  then show ?case using Cons.IH [of "max m0 r"] by simp
qed

lemma b_exec_scan:
  assumes "bpc th = B_scan" and "b_scan_i th + length rs = n"
  shows "BakeryLock_exec n k t (map VInt rs) th
         = (map (\<lambda>i. Load (Number i) memory_order_seq_cst) [b_scan_i th..<n],
            th\<lparr>max_ticket := foldl max (max_ticket th) rs, b_scan_i := n\<rparr>)"
  using assms
proof (induction rs arbitrary: th)
  case Nil
  then show ?case by simp
next
  case (Cons r rs)
  let ?th = "BakeryLock_after n k t th (VInt r)"
  have lt: "b_scan_i th < n" using Cons.prems(2) by simp
  have a: "?th = th\<lparr>max_ticket := max (max_ticket th) r, b_scan_i := b_scan_i th + 1\<rparr>"
    using Cons.prems(1) lt by (simp add: BakeryLock_after_def)
  have b: "bpc ?th = B_scan" "b_scan_i ?th + length rs = n"
    using Cons.prems a by simp_all
  have c: "BakeryLock_access_of n t th = Load (Number (b_scan_i th)) memory_order_seq_cst"
    using Cons.prems(1) lt by (simp add: BakeryLock_access_of_def)
  have d: "[b_scan_i th..<n] = b_scan_i th # [b_scan_i th + 1..<n]"
    using lt by (simp add: upt_conv_Cons)
  show ?case using Cons.IH [OF b] c d by (simp add: a)
qed

lemma max_of_tickets:
  fixes rs :: "int list"
  assumes "rs \<noteq> []" and "\<forall>r \<in> set rs. 0 \<le> r"
  shows "Max (insert 0 (set rs)) = Max (set rs)"
proof -
  have ne: "set rs \<noteq> {}" using assms(1) by simp
  have "hd rs \<in> set rs" using assms(1) by simp
  then obtain r where r: "r \<in> set rs" ..
  then have "0 \<le> r" using assms(2) by blast
  also have "r \<le> Max (set rs)" using r by simp
  finally have "0 \<le> Max (set rs)" .
  moreover have "Max (insert 0 (set rs)) = max 0 (Max (set rs))" using ne by simp
  ultimately show ?thesis by simp
qed

lemma BakeryLock_doorway:
  assumes "bpc th = B_choose" and "length rs = n" and "0 < n"
    and "\<forall>r \<in> set rs. 0 \<le> r \<and> r < INT_MAX"
  shows "fst (BakeryLock_exec n k t (x # map VInt rs @ [y, z, w]) th)
           = Store (Choosing t) (VBool True) memory_order_seq_cst
             # map (\<lambda>i. Load (Number i) memory_order_seq_cst) [0..<n]
             @ [Local,
                Store (Number t) (VInt (1 + Max (set rs))) memory_order_seq_cst,
                Store (Choosing t) (VBool False) memory_order_seq_cst]"
proof -
  define th1 where "th1 = BakeryLock_after n k t th x"
  have th1: "th1 = th\<lparr>max_ticket := 0, b_scan_i := 0, bpc := B_scan\<rparr>"
    using assms(1) by (simp add: th1_def BakeryLock_after_def)
  have s1: "bpc th1 = B_scan" "b_scan_i th1 + length rs = n" using assms(2) by (simp_all add: th1)
  define mx where "mx = foldl max 0 rs"
  define th2 where "th2 = th1\<lparr>max_ticket := mx, b_scan_i := n\<rparr>"
  have sc: "BakeryLock_exec n k t (map VInt rs) th1
            = (map (\<lambda>i. Load (Number i) memory_order_seq_cst) [0..<n], th2)"
    using b_exec_scan [OF s1, of k t] by (simp add: th1 th2_def mx_def)
  have ne: "rs \<noteq> []" using assms(2,3) by auto
  have nn: "\<forall>r \<in> set rs. 0 \<le> r" using assms(4) by blast
  have mx: "mx = Max (set rs)" by (simp add: mx_def b_scan_max max_of_tickets [OF ne nn])
  have "Max (set rs) \<in> set rs" using ne by simp
  then have lt: "mx < INT_MAX" using assms(4) mx by simp
  have tl: "fst (BakeryLock_exec n k t [y, z, w] th2)
            = [Local, Store (Number t) (VInt (1 + Max (set rs))) memory_order_seq_cst,
               Store (Choosing t) (VBool False) memory_order_seq_cst]"
    using lt by (simp add: th2_def th1 BakeryLock_access_of_def BakeryLock_after_def mx)
  show ?thesis
    using assms(1) sc tl
    by (simp add: b_exec_append th1_def [symmetric] BakeryLock_access_of_def)
qed

lemma BakeryLock_poll_unfold:
  assumes "bpc th = B_await_nonzero"
  shows "bpc (BakeryLock_poll n k t th ti mine)
           = (if ti \<noteq> 0 \<and> (ti < mine \<or> ti = mine \<and> b_wait_i th < t)
              then B_await_nonzero else B_await_choosing) \<and>
         b_wait_i (BakeryLock_poll n k t th ti mine)
           = (if ti \<noteq> 0 \<and> (ti < mine \<or> ti = mine \<and> b_wait_i th < t)
              then b_wait_i th else b_wait_i th + 1)"
  using assms by (auto simp: BakeryLock_poll_def BakeryLock_after_def Let_def)

lemma b_own_ticket_read:
  assumes inv: "BakeryLock_inv n k s" and t: "t < n"
    and pc: "bpc (bthreads s ! t) = B_await_less_own \<or> bpc (bthreads s ! t) = B_await_equal_own"
  shows "fst (perform (BakeryLock_access_of n t (bthreads s ! t)) c (bviews s ! t) (bmemory s))
         = VInt (max_ticket (bthreads s ! t) + 1)"
proof -
  have ne: "\<forall>x. vals (bmemory s) x \<noteq> []" using inv by (simp add: BakeryLock_inv_def)
  have acc: "BakeryLock_access_of n t (bthreads s ! t) = Load (Number t) memory_order_seq_cst"
    using pc by (auto simp: BakeryLock_access_of_def)
  have "last (vals (bmemory s) (Number t)) = VInt (b_ticket_of (bthreads s ! t))"
    using inv t by (simp add: BakeryLock_inv_def)
  moreover have "b_ticket_of (bthreads s ! t) = max_ticket (bthreads s ! t) + 1"
    using pc by (auto simp: b_ticket_of_def b_holding_def)
  ultimately show ?thesis using b_read_latest [OF ne acc] by simp
qed

subsection \<open>Mutual exclusion when the scan reads the latest tickets\<close>

text \<open>
  The invariant \<open>pair_inv\<close> is kept by a step of the thread it speaks for and by a step of
  the other thread, provided the loads return the latest values: the ones of
  \<^verbatim>\<open>choosing[k]\<close>, \<^verbatim>\<open>number[k]\<close> and the own ticket in the wait, which are sequentially
  consistent, and the one of \<^verbatim>\<open>number[a]\<close> in the scan of the other thread, which is relaxed
  in the program with the harness.
\<close>

lemma seen_outside_doorway: "\<not> doorway K \<Longrightarrow> seen a A K"
  by (auto simp: seen_def doorway_def)

lemma after_max_num:
  "pc A \<noteq> Choose \<Longrightarrow> pc A \<noteq> Scan \<Longrightarrow> max_num (after n kk a A v) = max_num A"
  by (cases "pc A") (auto simp: after_def)

lemma seen_after:
  "pc A \<noteq> Choose \<Longrightarrow> pc A \<noteq> Scan \<Longrightarrow> seen a (after n kk a' A v) K = seen a A K"
  by (simp add: seen_def after_max_num)

lemma goes_first_after:
  "pc A \<noteq> Choose \<Longrightarrow> pc A \<noteq> Scan \<Longrightarrow>
   goes_first a (after n kk a' A v) k K = goes_first a A k K"
  by (simp add: goes_first_def after_max_num)

lemma pair_inv_own_step:
  assumes inv: "pair_inv a A k K" and ak: "a \<noteq> k" and kn: "k < n"
    and hK: "holding K \<longrightarrow> 1 \<le> ticket_of K"
    and v1: "pc A = Await_choosing \<and> wait_j A = k \<longrightarrow> as_bool v = doorway K"
    and v2: "pc A = Await_number \<and> wait_j A = k \<longrightarrow> as_int v = ticket_of K"
    and v3: "pc A = Await_less \<or> pc A = Await_equal \<longrightarrow> as_int v = max_num A + 1"
  shows "pair_inv a (after n kk a A v) k K"
proof -
  let ?A = "after n kk a A v"
  have quiet: "pair_inv a ?A k K" if "\<not> critical ?A" "\<not> waiting ?A"
    using that by (auto simp: pair_inv_def waiting_def)
  show ?thesis
  proof (cases "pc A")
    case Iterate
    then show ?thesis by (intro quiet) (auto simp: after_def critical_def waiting_def)
  next
    case Choose
    then show ?thesis by (intro quiet) (auto simp: after_def critical_def waiting_def)
  next
    case Scan
    then show ?thesis by (intro quiet) (auto simp: after_def critical_def waiting_def)
  next
    case Take
    then show ?thesis by (intro quiet) (auto simp: after_def critical_def waiting_def)
  next
    case Chosen
    then show ?thesis by (simp add: pair_inv_def after_def critical_def waiting_def)
  next
    case Await_choosing
    have m: "seen a ?A K = seen a A K" "goes_first a ?A k K = goes_first a A k K"
      using Await_choosing by (simp_all add: seen_after goes_first_after)
    show ?thesis
      using inv Await_choosing ak kn v1 seen_outside_doorway [of K a A]
      unfolding pair_inv_def m
      by (auto simp: after_def critical_def waiting_def)
  next
    case Await_number
    have m: "seen a ?A K = seen a A K" "goes_first a ?A k K = goes_first a A k K"
      using Await_number by (simp_all add: seen_after goes_first_after)
    have g: "as_int v = 0 \<Longrightarrow> wait_j A = k \<Longrightarrow> goes_first a A k K"
      using v2 hK Await_number by (auto simp: goes_first_def)
    show ?thesis
      using inv Await_number ak kn v2 g
      unfolding pair_inv_def m
      by (auto simp: after_def critical_def waiting_def)
  next
    case Await_less
    have m: "seen a ?A K = seen a A K" "goes_first a ?A k K = goes_first a A k K"
      using Await_less by (simp_all add: seen_after goes_first_after)
    show ?thesis
      using inv Await_less ak kn v3
      unfolding pair_inv_def m
      by (auto simp: after_def critical_def waiting_def)
  next
    case Await_equal
    have m: "seen a ?A K = seen a A K" "goes_first a ?A k K = goes_first a A k K"
      using Await_equal by (simp_all add: seen_after goes_first_after)
    have g: "goes_first a A k K"
      if "wait_j A = k" "\<not> (num_j A = as_int v \<and> wait_j A < a)"
    proof -
      have e: "\<not> num_j A < max_num A + 1"
        "holding K \<and> ticket_of K \<le> max_num A + 1 \<longrightarrow> num_j A = ticket_of K"
        using inv Await_equal that(1) by (simp_all add: pair_inv_def)
      have v: "as_int v = max_num A + 1" using v3 Await_equal by simp
      show ?thesis using e v that ak by (auto simp: goes_first_def)
    qed
    show ?thesis
      using inv Await_equal ak kn g
      unfolding pair_inv_def m
      by (auto simp: after_def critical_def waiting_def)
  next
    case Enter
    have m: "seen a ?A K = seen a A K" "goes_first a ?A k K = goes_first a A k K"
      using Enter by (simp_all add: seen_after goes_first_after)
    show ?thesis using inv Enter unfolding pair_inv_def m
      by (auto simp: after_def critical_def waiting_def)
  next
    case Flag_entry
    have m: "seen a ?A K = seen a A K" "goes_first a ?A k K = goes_first a A k K"
      using Flag_entry by (simp_all add: seen_after goes_first_after)
    show ?thesis using inv Flag_entry unfolding pair_inv_def m
      by (auto simp: after_def critical_def waiting_def)
  next
    case Count
    have m: "seen a ?A K = seen a A K" "goes_first a ?A k K = goes_first a A k K"
      using Count by (simp_all add: seen_after goes_first_after)
    show ?thesis using inv Count unfolding pair_inv_def m
      by (auto simp: after_def critical_def waiting_def)
  next
    case Recheck
    have m: "seen a ?A K = seen a A K" "goes_first a ?A k K = goes_first a A k K"
      using Recheck by (simp_all add: seen_after goes_first_after)
    show ?thesis using inv Recheck unfolding pair_inv_def m
      by (auto simp: after_def critical_def waiting_def)
  next
    case Flag_exit
    have m: "seen a ?A K = seen a A K" "goes_first a ?A k K = goes_first a A k K"
      using Flag_exit by (simp_all add: seen_after goes_first_after)
    show ?thesis using inv Flag_exit unfolding pair_inv_def m
      by (auto simp: after_def critical_def waiting_def)
  next
    case Leave
    have m: "seen a ?A K = seen a A K" "goes_first a ?A k K = goes_first a A k K"
      using Leave by (simp_all add: seen_after goes_first_after)
    show ?thesis using inv Leave unfolding pair_inv_def m
      by (auto simp: after_def critical_def waiting_def)
  next
    case Unlock
    then show ?thesis by (intro quiet) (auto simp: after_def critical_def waiting_def)
  next
    case Done
    then show ?thesis by (intro quiet) (auto simp: after_def critical_def waiting_def)
  next
    case Undefined
    then show ?thesis by (intro quiet) (auto simp: after_def critical_def waiting_def)
  qed
qed

lemma holding_after:
  assumes "pc th = Take \<longrightarrow> max_num th < INT_MAX"
  shows "holding (after n k t th v) = (pc th = Take \<or> holding th \<and> pc th \<noteq> Unlock)"
  using assms by (cases "pc th") (auto simp: holding_def after_def)

lemma seen_step:
  assumes "seen a A K" and "a < n" and "pc K = Take \<longrightarrow> max_num K < INT_MAX"
    and "pc K = Scan \<and> scan_i K = a \<longrightarrow> as_int v = max_num A + 1"
  shows "seen a A (after n kk k K v)"
  using assms by (cases "pc K") (auto simp: seen_def after_def)

lemma pair_inv_other_step:
  assumes inv: "pair_inv a A k K" and ak: "a \<noteq> k" and an: "a < n"
    and ov: "pc K = Take \<longrightarrow> max_num K < INT_MAX"
    and v: "pc K = Scan \<and> scan_i K = a \<longrightarrow> as_int v = ticket_of A"
  shows "pair_inv a A k (after n kk k K v)"
proof -
  let ?K = "after n kk k K v"
  have tk: "ticket_of ?K = (if pc K = Take then max_num K + 1 else if pc K = Unlock then 0
                            else ticket_of K)"
    by (rule ticket_of_after [OF ov])
  have hk: "holding ?K = (pc K = Take \<or> holding K \<and> pc K \<noteq> Unlock)"
    by (rule holding_after [OF ov])
  have mine: "ticket_of A = max_num A + 1" if "critical A \<or> waiting A"
    using that by (auto simp: ticket_of_def holding_def critical_def waiting_def)
  have s: "seen a A ?K" if "seen a A K" "critical A \<or> waiting A"
    using that(1) an ov v mine [OF that(2)] by (intro seen_step) simp_all
  have g: "goes_first a A k ?K" if "seen a A K" "goes_first a A k K"
    using that by (auto simp: goes_first_def tk hk seen_def)
  have nj: "holding ?K \<and> ticket_of ?K \<le> max_num A + 1 \<longrightarrow> num_j A = ticket_of ?K"
    if "seen a A K" "holding K \<and> ticket_of K \<le> max_num A + 1 \<longrightarrow> num_j A = ticket_of K"
    using that by (auto simp: tk hk seen_def)
  have w: "critical A \<or> waiting A"
    if "wait_j A = k \<and> (pc A = Await_number \<or> pc A = Await_less \<or> pc A = Await_equal)"
    using that by (auto simp: waiting_def)
  show ?thesis
    using inv s g nj w unfolding pair_inv_def by blast
qed

lemma read_latest:
  assumes "\<forall>x. vals m x \<noteq> []" and "access_of n t th = Load x ord"
  shows "fst (perform (access_of n t th) None vw m) = last (vals m x)"
proof -
  have "m x \<noteq> []" using assms(1) by (auto simp: vals_def)
  then show ?thesis
    using assms(2)
    by (cases ord) (simp_all add: perform_def vals_def latest_def last_map last_conv_nth Let_def)
qed

lemma fetch_reads_latest:
  assumes "\<forall>x. vals m x \<noteq> []" and "access_of n t th = Fetch_add x d ord"
  shows "fst (perform (access_of n t th) c vw m) = last (vals m x)"
proof -
  have "m x \<noteq> []" using assms(1) by (auto simp: vals_def)
  then show ?thesis
    using assms(2) by (simp add: perform_def rmw_def vals_def last_map Let_def)
qed

lemma critical_holding: "critical th \<Longrightarrow> holding th"
  by (auto simp: critical_def holding_def)

lemma inside_critical: "inside th \<Longrightarrow> critical th"
  by (auto simp: critical_def inside_def)

lemma exclusion:
  assumes "pair_inv a A k K" and "pair_inv k K a A" and "critical A" and "critical K"
  shows False
proof -
  have hA: "holding A" and hK: "holding K" using assms(3,4) by (simp_all add: critical_holding)
  have "(max_num A + 1, a) < (ticket_of K, k)"
    using assms(1,3) hK by (simp add: pair_inv_def goes_first_def)
  moreover have "(max_num K + 1, k) < (ticket_of A, a)"
    using assms(2,4) hA by (simp add: pair_inv_def goes_first_def)
  ultimately show False using hA hK by (auto simp: ticket_of_def)
qed

lemma sum_list_single:
  fixes f :: "'a \<Rightarrow> int"
  assumes "t < length xs" and "\<forall>i < length xs. i \<noteq> t \<longrightarrow> f (xs ! i) = 0"
  shows "sum_list (map f xs) = f (xs ! t)"
  using assms
proof (induction xs arbitrary: t)
  case Nil
  then show ?case by simp
next
  case (Cons x xs)
  show ?case
  proof (cases t)
    case 0
    have "\<forall>i < length xs. f (xs ! i) = 0"
    proof (intro allI impI)
      fix i assume "i < length xs"
      then show "f (xs ! i) = 0" using Cons.prems(2) 0 by (auto dest: spec [of _ "Suc i"])
    qed
    then have "sum_list (map f xs) = int (length xs) * 0"
      by (intro sum_list_all_eq) simp
    then show ?thesis using 0 by simp
  next
    case (Suc t')
    have x: "f x = 0" using Cons.prems(2) Suc by (auto dest: spec [of _ 0])
    have t': "t' < length xs" using Cons.prems(1) Suc by simp
    have "\<forall>i < length xs. i \<noteq> t' \<longrightarrow> f (xs ! i) = 0"
    proof (intro allI impI)
      fix i assume "i < length xs" "i \<noteq> t'"
      then show "f (xs ! i) = 0" using Cons.prems(2) Suc by (auto dest: spec [of _ "Suc i"])
    qed
    then have "sum_list (map f xs) = f (xs ! t')" by (rule Cons.IH [OF t'])
    then show ?thesis using Suc x by simp
  qed
qed

lemma exclusion_inv_init: "exclusion_inv n (init n)"
  by (auto simp: exclusion_inv_def init_def pair_inv_def thread_new_def critical_def
      waiting_def vals_def initial_value_def)

lemma exclusion_inv_step:
  assumes h: "harness_inv n k s" and ti: "ticket_inv n s" and ex: "exclusion_inv n s"
    and nk: "int n * int k \<le> INT_MAX" and c: "snd tc = None"
  shows "exclusion_inv n (step n k tc s)"
proof (cases "fst tc < n")
  case False
  then show ?thesis using ex h by (simp add: step_def harness_inv_def)
next
  case True
  define t where "t = fst tc"
  define th where "th = threads s ! t"
  define m where "m = memory s"
  define r where "r = perform (access_of n t th) None (views s ! t) m"
  define v where "v = fst r"
  define th' where "th' = after n k t th v"
  define m' where "m' = snd (snd r)"
  have t: "t < n" using True by (simp add: t_def)
  have len: "length (threads s) = n" "length (views s) = n"
    using h by (simp_all add: harness_inv_def)
  have ne: "\<forall>x. vals m x \<noteq> []" using h by (simp add: harness_inv_def m_def)
  have tc: "tc = (t, None)" using c by (cases tc) (simp add: t_def)
  have st: "step n k tc s = s\<lparr>threads := (threads s)[t := th'],
          views := (views s)[t := fst (snd r)], memory := m'\<rparr>"
    unfolding tc using t len
    by (simp add: step_unfold th_def r_def th'_def m'_def m_def v_def)
  have v': "vals m' y = vals m y @ appended t th m y" for y
    unfolding m'_def r_def by (rule vals_perform [OF ne])
  have ld: "v = last (vals m x)" if "access_of n t th = Load x ord" for x ord
    unfolding v_def r_def by (rule read_latest [OF ne that])
  have fa: "v = last (vals m x)" if "access_of n t th = Fetch_add x d ord" for x d ord
    unfolding v_def r_def by (rule fetch_reads_latest [OF ne that])
  have ch: "\<forall>i < n. last (vals m (Choosing i)) = VBool (doorway (threads s ! i))"
    using ti by (simp add: ticket_inv_def m_def)
  have tk: "\<forall>i < n. last (vals m (Number i)) = VInt (ticket_of (threads s ! i))"
    using ti by (simp add: ticket_inv_def m_def)
  have ok: "\<forall>i < n. 0 \<le> max_num (threads s ! i)"
    using ti by (simp add: ticket_inv_def thread_ok_def)
  have ov: "pc th = Take \<longrightarrow> max_num th < INT_MAX"
    using take_no_overflow [OF h ti nk t] by (simp add: th_def)
  have pairs: "\<forall>a < n. \<forall>b < n. a \<noteq> b \<longrightarrow> pair_inv a (threads s ! a) b (threads s ! b)"
    using ex by (simp add: exclusion_inv_def)
  have flags: "\<forall>i < n. pc (threads s ! i) \<noteq> Flag_entry \<and> pc (threads s ! i) \<noteq> Flag_exit"
    using ex by (simp add: exclusion_inv_def)
  have viol: "vals m Mutual_exclusion_violated = [VBool False]"
    using ex by (simp add: exclusion_inv_def m_def)
  have ins: "as_int (last (vals m Inside_critical_section_count))
               = sum_list (map (\<lambda>th. if inside th then 1 else 0) (threads s))"
    using h by (simp add: harness_inv_def m_def)
  have others: "\<not> inside (threads s ! i)" if "i < n" "i \<noteq> t" "critical th" for i
  proof
    assume "inside (threads s ! i)"
    then have "critical (threads s ! i)" by (rule inside_critical)
    moreover have "pair_inv i (threads s ! i) t th" "pair_inv t th i (threads s ! i)"
      using pairs that(1,2) t by (simp_all add: th_def)
    ultimately show False using that(3) exclusion by blast
  qed
  have c1: "pair_inv a ((threads s)[t := th'] ! a) b ((threads s)[t := th'] ! b)"
    if a: "a < n" and b: "b < n" and ab: "a \<noteq> b" for a b
  proof (cases "a = t")
    case True
    let ?K = "threads s ! b"
    have inv: "pair_inv t th b ?K" using pairs a b ab True by (simp add: th_def)
    have hK: "holding ?K \<longrightarrow> 1 \<le> ticket_of ?K"
      using ok b by (simp add: ticket_of_def)
    have v1: "pc th = Await_choosing \<and> wait_j th = b \<longrightarrow> as_bool v = doorway ?K"
    proof
      assume p: "pc th = Await_choosing \<and> wait_j th = b"
      then have "access_of n t th = Load (Choosing b) memory_order_seq_cst"
        using b ab True by (simp add: access_of_def)
      then have "v = last (vals m (Choosing b))" by (rule ld)
      then show "as_bool v = doorway ?K" using ch b by simp
    qed
    have v2: "pc th = Await_number \<and> wait_j th = b \<longrightarrow> as_int v = ticket_of ?K"
    proof
      assume p: "pc th = Await_number \<and> wait_j th = b"
      then have "access_of n t th = Load (Number b) memory_order_seq_cst"
        by (simp add: access_of_def)
      then have "v = last (vals m (Number b))" by (rule ld)
      then show "as_int v = ticket_of ?K" using tk b by simp
    qed
    have v3: "pc th = Await_less \<or> pc th = Await_equal \<longrightarrow> as_int v = max_num th + 1"
    proof
      assume p: "pc th = Await_less \<or> pc th = Await_equal"
      then have "access_of n t th = Load (Number t) memory_order_seq_cst"
        by (auto simp: access_of_def)
      then have "v = last (vals m (Number t))" by (rule ld)
      then have "as_int v = ticket_of th" using tk t by (simp add: th_def)
      then show "as_int v = max_num th + 1" using p by (auto simp: ticket_of_def holding_def)
    qed
    have "pair_inv t th' b ?K"
      unfolding th'_def using ab True
      by (intro pair_inv_own_step [OF inv _ b hK v1 v2 v3]) simp
    then show ?thesis using True ab t len by simp
  next
    case False
    note at = False
    let ?A = "threads s ! a"
    show ?thesis
    proof (cases "b = t")
      case True
      have inv: "pair_inv a ?A t th" using pairs a b ab True by (simp add: th_def)
      have vs: "pc th = Scan \<and> scan_i th = a \<longrightarrow> as_int v = ticket_of ?A"
      proof
        assume p: "pc th = Scan \<and> scan_i th = a"
        then have "access_of n t th = Load (Number a) memory_order_relaxed"
          using a by (simp add: access_of_def)
        then have "v = last (vals m (Number a))" by (rule ld)
        then show "as_int v = ticket_of ?A" using tk a by simp
      qed
      have "pair_inv a ?A t th'"
        unfolding th'_def using at
        by (intro pair_inv_other_step [OF inv _ a ov vs]) simp
      then show ?thesis using True at t len by simp
    next
      case False
      then show ?thesis using pairs a b ab at by simp
    qed
  qed
  have enter: "as_int v = 0" if p: "pc th = Enter"
  proof -
    have "access_of n t th = Fetch_add Inside_critical_section_count 1 memory_order_relaxed"
      using p by (simp add: access_of_def)
    then have "v = last (vals m Inside_critical_section_count)" by (rule fa)
    moreover have "\<forall>i < length (threads s).
        (if inside (threads s ! i) then 1 else (0::int)) = 0"
    proof (intro allI impI)
      fix i assume i: "i < length (threads s)"
      have "\<not> inside (threads s ! i)"
      proof (cases "i = t")
        case True
        then show ?thesis using p by (simp add: inside_def th_def)
      next
        case False
        then show ?thesis using others [of i] i len p by (simp add: critical_def)
      qed
      then show "(if inside (threads s ! i) then 1 else (0::int)) = 0" by simp
    qed
    then have "sum_list (map (\<lambda>th. if inside th then 1 else (0::int)) (threads s))
               = int (length (threads s)) * 0"
      by (rule sum_list_all_eq)
    ultimately show ?thesis using ins by simp
  qed
  have recheck: "as_int v \<le> 1" if p: "pc th = Recheck"
  proof -
    have "access_of n t th = Load Inside_critical_section_count memory_order_relaxed"
      using p by (simp add: access_of_def)
    then have "v = last (vals m Inside_critical_section_count)" by (rule ld)
    moreover have "\<forall>i < length (threads s). i \<noteq> t \<longrightarrow>
        (if inside (threads s ! i) then 1 else (0::int)) = 0"
      using others len p by (simp add: critical_def)
    then have "sum_list (map (\<lambda>th. if inside th then 1 else (0::int)) (threads s))
               = (if inside (threads s ! t) then 1 else 0)"
      using t len by (intro sum_list_single) simp_all
    ultimately show ?thesis using ins by simp
  qed
  have pt: "pc th \<noteq> Flag_entry \<and> pc th \<noteq> Flag_exit" using flags t by (simp add: th_def)
  have c2t: "pc th' \<noteq> Flag_entry \<and> pc th' \<noteq> Flag_exit"
    using pt enter recheck unfolding th'_def
    by (cases "pc th") (auto simp: after_def)
  have c2: "\<forall>i < n. pc ((threads s)[t := th'] ! i) \<noteq> Flag_entry
                   \<and> pc ((threads s)[t := th'] ! i) \<noteq> Flag_exit"
  proof (intro allI impI)
    fix i assume i: "i < n"
    show "pc ((threads s)[t := th'] ! i) \<noteq> Flag_entry
          \<and> pc ((threads s)[t := th'] ! i) \<noteq> Flag_exit"
    proof (cases "i = t")
      case True
      then show ?thesis using c2t t len by simp
    next
      case False
      then show ?thesis using flags i by simp
    qed
  qed
  have c3: "vals m' Mutual_exclusion_violated = [VBool False]"
    using viol pt by (cases "pc th") (auto simp: v' appended_def effect_def)
  show ?thesis
    unfolding st exclusion_inv_def using c1 c2 c3 by simp
qed

lemma exclusion_invs_run:
  assumes "harness_inv n k s" and "ticket_inv n s" and "exclusion_inv n s"
    and "int n * int k \<le> INT_MAX" and "reads_latest sched"
  shows "exclusion_inv n (run n k sched s)"
  using assms
proof (induction sched arbitrary: s)
  case Nil
  then show ?case by simp
next
  case (Cons tc sched)
  have c: "snd tc = None" and r: "reads_latest sched"
    using Cons.prems(5) by (simp_all add: reads_latest_def)
  have "exclusion_inv n (run n k sched (step n k tc s))"
    using Cons.prems(1-4) c r
    by (intro Cons.IH harness_inv_step ticket_inv_step exclusion_inv_step)
  then show ?case by simp
qed

text \<open>
  In every run in which the relaxed loads read the latest values, no two threads are
  between the return of \<^verbatim>\<open>lock\<close> and the store of \<^verbatim>\<open>unlock\<close> at once, the occupancy
  counter is at most 1, the flag is false, and \<^verbatim>\<open>main\<close> returns 0 once the threads are
  joined.
\<close>

lemma exclusion_when_reads_latest:
  assumes nk: "int n * int k \<le> INT_MAX" and rl: "reads_latest sched"
    and s: "s = run n k sched (init n)"
  shows "(\<forall>a < n. \<forall>b < n. a \<noteq> b \<longrightarrow>
            \<not> (critical (threads s ! a) \<and> critical (threads s ! b))) \<and>
         as_int (value_at (memory s) Inside_critical_section_count) \<le> 1 \<and>
         value_at (memory s) Mutual_exclusion_violated = VBool False \<and>
         (joined s \<longrightarrow> main_result n k s = 0)"
proof -
  have h: "harness_inv n k s" and ti: "ticket_inv n s"
    unfolding s using invariants_reachable [OF nk] by simp_all
  have ex: "exclusion_inv n s"
    unfolding s
    by (rule exclusion_invs_run [OF harness_inv_init ticket_inv_init exclusion_inv_init nk rl])
  have len: "length (threads s) = n" using h by (simp add: harness_inv_def)
  have pairs: "\<forall>a < n. \<forall>b < n. a \<noteq> b \<longrightarrow> pair_inv a (threads s ! a) b (threads s ! b)"
    using ex by (simp add: exclusion_inv_def)
  have a: "\<forall>a < n. \<forall>b < n. a \<noteq> b \<longrightarrow>
            \<not> (critical (threads s ! a) \<and> critical (threads s ! b))"
  proof (intro allI impI notI)
    fix a b assume ab: "a < n" "b < n" "a \<noteq> b"
      and cr: "critical (threads s ! a) \<and> critical (threads s ! b)"
    have "pair_inv a (threads s ! a) b (threads s ! b)"
        "pair_inv b (threads s ! b) a (threads s ! a)"
      using pairs ab by simp_all
    then show False using cr exclusion by blast
  qed
  have nev: "\<forall>x. vals (memory s) x \<noteq> []" using h by (simp add: harness_inv_def)
  have ins: "as_int (last (vals (memory s) Inside_critical_section_count))
               = sum_list (map (\<lambda>th. if inside th then 1 else 0) (threads s))"
    using h by (simp add: harness_inv_def)
  have "sum_list (map (\<lambda>th. if inside th then 1 else (0::int)) (threads s)) \<le> 1"
  proof (cases "\<exists>t < n. inside (threads s ! t)")
    case True
    then obtain t where t: "t < n" "inside (threads s ! t)" by blast
    have "\<forall>i < length (threads s). i \<noteq> t \<longrightarrow>
        (if inside (threads s ! i) then 1 else (0::int)) = 0"
      using a t len by (auto dest: inside_critical)
    then have "sum_list (map (\<lambda>th. if inside th then 1 else (0::int)) (threads s))
               = (if inside (threads s ! t) then 1 else 0)"
      using t len by (intro sum_list_single) simp_all
    then show ?thesis by simp
  next
    case False
    then have "\<forall>i < length (threads s). (if inside (threads s ! i) then 1 else (0::int)) = 0"
      using len by auto
    then have "sum_list (map (\<lambda>th. if inside th then 1 else (0::int)) (threads s))
               = int (length (threads s)) * 0"
      by (rule sum_list_all_eq)
    then show ?thesis by simp
  qed
  moreover have nei: "memory s Inside_critical_section_count \<noteq> []"
    using nev by (auto simp: vals_def)
  ultimately have b: "as_int (value_at (memory s) Inside_critical_section_count) \<le> 1"
    using ins value_at_vals [of "memory s" Inside_critical_section_count] by simp
  have nef: "memory s Mutual_exclusion_violated \<noteq> []" using nev by (auto simp: vals_def)
  have c: "value_at (memory s) Mutual_exclusion_violated = VBool False"
    using ex value_at_vals [of "memory s" Mutual_exclusion_violated, OF nef]
    by (simp add: exclusion_inv_def)
  have d: "main_result n k s = 0" if j: "joined s"
  proof -
    have "as_int (value_at (memory s) Shared_counter) = int n * int k"
      using exact_accounting [of n k sched] j unfolding s by simp
    then show ?thesis using c by (simp add: main_result_def)
  qed
  from a b c d show ?thesis by blast
qed

subsection \<open>Mutual exclusion of \<^verbatim>\<open>BakeryLock\<close>\<close>

lemma b_after_max_ticket:
  "bpc A \<noteq> B_choose \<Longrightarrow> bpc A \<noteq> B_scan \<Longrightarrow>
   max_ticket (BakeryLock_after n kk a A v) = max_ticket A"
  by (cases "bpc A") (auto simp: BakeryLock_after_def)

lemma b_seen_after:
  "bpc A \<noteq> B_choose \<Longrightarrow> bpc A \<noteq> B_scan \<Longrightarrow>
   b_seen a (BakeryLock_after n kk a' A v) K = b_seen a A K"
  by (simp add: b_seen_def b_after_max_ticket)

lemma b_goes_first_after:
  "bpc A \<noteq> B_choose \<Longrightarrow> bpc A \<noteq> B_scan \<Longrightarrow>
   b_goes_first a (BakeryLock_after n kk a' A v) k K = b_goes_first a A k K"
  by (simp add: b_goes_first_def b_after_max_ticket)

lemma b_seen_outside_doorway: "\<not> b_doorway K \<Longrightarrow> b_seen a A K"
  by (auto simp: b_seen_def b_doorway_def)

lemma b_pair_inv_own_step:
  assumes inv: "b_pair_inv a A k K" and ak: "a \<noteq> k" and kn: "k < n"
    and hK: "b_holding K \<longrightarrow> 1 \<le> b_ticket_of K"
    and v1: "bpc A = B_await_choosing \<and> b_wait_i A = k \<longrightarrow> as_bool v = b_doorway K"
    and v2: "(bpc A = B_await_nonzero \<or> bpc A = B_await_less_other
              \<or> bpc A = B_await_equal_other) \<and> b_wait_i A = k \<longrightarrow> as_int v = b_ticket_of K"
    and v3: "bpc A = B_await_less_own \<or> bpc A = B_await_equal_own \<longrightarrow>
             as_int v = max_ticket A + 1"
  shows "b_pair_inv a (BakeryLock_after n kk a A v) k K"
proof -
  let ?A = "BakeryLock_after n kk a A v"
  have quiet: "b_pair_inv a ?A k K" if "\<not> b_critical ?A" "\<not> b_waiting ?A"
    using that by (auto simp: b_pair_inv_def)
  have m: "b_seen a ?A K = b_seen a A K" "b_goes_first a ?A k K = b_goes_first a A k K"
    if "bpc A \<noteq> B_choose" "bpc A \<noteq> B_scan"
    using that by (simp_all add: b_seen_after b_goes_first_after)
  show ?thesis
  proof (cases "bpc A")
    case B_iterate
    then show ?thesis
      by (intro quiet) (auto simp: BakeryLock_after_def b_critical_def b_waiting_def)
  next
    case B_choose
    then show ?thesis
      by (intro quiet) (auto simp: BakeryLock_after_def b_critical_def b_waiting_def)
  next
    case B_scan
    then show ?thesis
      by (intro quiet) (auto simp: BakeryLock_after_def b_critical_def b_waiting_def)
  next
    case B_take
    then show ?thesis
      by (intro quiet) (auto simp: BakeryLock_after_def b_critical_def b_waiting_def)
  next
    case B_chosen
    then show ?thesis
      by (simp add: b_pair_inv_def BakeryLock_after_def b_critical_def b_waiting_def)
  next
    case B_await_choosing
    show ?thesis
      using inv B_await_choosing ak kn v1 b_seen_outside_doorway [of K a A]
      unfolding b_pair_inv_def m [of, simplified B_await_choosing, simplified]
      by (auto simp: BakeryLock_after_def b_critical_def b_waiting_def)
  next
    case B_await_nonzero
    have g: "as_int v = 0 \<Longrightarrow> b_wait_i A = k \<Longrightarrow> b_goes_first a A k K"
      using v2 hK B_await_nonzero by (auto simp: b_goes_first_def)
    show ?thesis
      using inv B_await_nonzero ak kn g
      unfolding b_pair_inv_def m [of, simplified B_await_nonzero, simplified]
      by (auto simp: BakeryLock_after_def b_critical_def b_waiting_def)
  next
    case B_await_less_other
    show ?thesis
      using inv B_await_less_other ak kn v2
      unfolding b_pair_inv_def m [of, simplified B_await_less_other, simplified]
      by (auto simp: BakeryLock_after_def b_critical_def b_waiting_def)
  next
    case B_await_less_own
    have e: "b_holding K \<longrightarrow> max_ticket A + 1 \<le> b_ticket_of K"
      if "b_wait_i A = k" "\<not> lhs A < as_int v"
      using inv B_await_less_own that v3 by (auto simp: b_pair_inv_def b_waiting_def)
    show ?thesis
      using inv B_await_less_own ak kn e
      unfolding b_pair_inv_def m [of, simplified B_await_less_own, simplified]
      by (auto simp: BakeryLock_after_def b_critical_def b_waiting_def)
  next
    case B_await_equal_other
    show ?thesis
      using inv B_await_equal_other ak kn v2
      unfolding b_pair_inv_def m [of, simplified B_await_equal_other, simplified]
      by (auto simp: BakeryLock_after_def b_critical_def b_waiting_def)
  next
    case B_await_equal_own
    have g: "b_goes_first a A k K"
      if "b_wait_i A = k" "\<not> (lhs A = as_int v \<and> b_wait_i A < a)"
    proof -
      have e: "b_holding K \<longrightarrow> max_ticket A + 1 \<le> b_ticket_of K"
        "b_holding K \<and> b_ticket_of K = max_ticket A + 1 \<longrightarrow> lhs A = b_ticket_of K"
        using inv B_await_equal_own that(1) by (simp_all add: b_pair_inv_def b_waiting_def)
      have v: "as_int v = max_ticket A + 1" using v3 B_await_equal_own by simp
      show ?thesis using e v that ak by (auto simp: b_goes_first_def)
    qed
    show ?thesis
      using inv B_await_equal_own ak kn g
      unfolding b_pair_inv_def m [of, simplified B_await_equal_own, simplified]
      by (auto simp: BakeryLock_after_def b_critical_def b_waiting_def)
  next
    case B_critical
    show ?thesis using inv B_critical
      unfolding b_pair_inv_def m [of, simplified B_critical, simplified]
      by (auto simp: BakeryLock_after_def b_critical_def b_waiting_def)
  next
    case B_unlock
    then show ?thesis
      by (intro quiet) (auto simp: BakeryLock_after_def b_critical_def b_waiting_def)
  next
    case B_done
    then show ?thesis
      by (intro quiet) (auto simp: BakeryLock_after_def b_critical_def b_waiting_def)
  next
    case B_undefined
    then show ?thesis
      by (intro quiet) (auto simp: BakeryLock_after_def b_critical_def b_waiting_def)
  qed
qed

lemma b_holding_after:
  assumes "bpc th = B_take \<longrightarrow> max_ticket th < INT_MAX"
  shows "b_holding (BakeryLock_after n k t th v)
         = (bpc th = B_take \<or> b_holding th \<and> bpc th \<noteq> B_unlock)"
  using assms by (cases "bpc th") (auto simp: b_holding_def BakeryLock_after_def)

lemma b_seen_step:
  assumes "b_seen a A K" and "a < n" and "bpc K = B_take \<longrightarrow> max_ticket K < INT_MAX"
    and "bpc K = B_scan \<and> b_scan_i K = a \<longrightarrow> as_int v = max_ticket A + 1"
  shows "b_seen a A (BakeryLock_after n kk k K v)"
  using assms by (cases "bpc K") (auto simp: b_seen_def BakeryLock_after_def)

lemma b_pair_inv_other_step:
  assumes inv: "b_pair_inv a A k K" and ak: "a \<noteq> k" and an: "a < n"
    and ov: "bpc K = B_take \<longrightarrow> max_ticket K < INT_MAX"
    and v: "bpc K = B_scan \<and> b_scan_i K = a \<longrightarrow> as_int v = b_ticket_of A"
  shows "b_pair_inv a A k (BakeryLock_after n kk k K v)"
proof -
  let ?K = "BakeryLock_after n kk k K v"
  have tk: "b_ticket_of ?K = (if bpc K = B_take then max_ticket K + 1
                              else if bpc K = B_unlock then 0 else b_ticket_of K)"
    by (rule b_ticket_of_after [OF ov])
  have hk: "b_holding ?K = (bpc K = B_take \<or> b_holding K \<and> bpc K \<noteq> B_unlock)"
    by (rule b_holding_after [OF ov])
  have mine: "b_ticket_of A = max_ticket A + 1" if "b_critical A \<or> b_waiting A"
    using that by (auto simp: b_ticket_of_def b_holding_def b_critical_def b_waiting_def)
  have s: "b_seen a A ?K" if "b_seen a A K" "b_critical A \<or> b_waiting A"
    using that(1) an ov v mine [OF that(2)] by (intro b_seen_step) simp_all
  have g: "b_goes_first a A k ?K" if "b_seen a A K" "b_goes_first a A k K"
    using that by (auto simp: b_goes_first_def tk hk b_seen_def)
  have lo: "b_holding ?K \<and> b_ticket_of ?K \<le> max_ticket A + 1 \<longrightarrow> lhs A = b_ticket_of ?K"
    if "b_seen a A K"
      "b_holding K \<and> b_ticket_of K \<le> max_ticket A + 1 \<longrightarrow> lhs A = b_ticket_of K"
    using that by (auto simp: tk hk b_seen_def)
  have eo: "b_holding ?K \<longrightarrow> max_ticket A + 1 \<le> b_ticket_of ?K"
    if "b_seen a A K" "b_holding K \<longrightarrow> max_ticket A + 1 \<le> b_ticket_of K"
    using that by (auto simp: tk hk b_seen_def)
  have ew: "b_holding ?K \<and> b_ticket_of ?K = max_ticket A + 1 \<longrightarrow> lhs A = b_ticket_of ?K"
    if "b_seen a A K"
      "b_holding K \<and> b_ticket_of K = max_ticket A + 1 \<longrightarrow> lhs A = b_ticket_of K"
    using that by (auto simp: tk hk b_seen_def)
  have w: "b_critical A \<or> b_waiting A" if "b_wait_i A = k \<and> b_waiting A"
    using that by simp
  show ?thesis
    using inv s g lo eo ew w unfolding b_pair_inv_def by blast
qed

lemma b_critical_holding: "b_critical th \<Longrightarrow> b_holding th"
  by (auto simp: b_critical_def b_holding_def)

lemma b_exclusion:
  assumes "b_pair_inv a A k K" and "b_pair_inv k K a A" and "b_critical A" and "b_critical K"
  shows False
proof -
  have hA: "b_holding A" and hK: "b_holding K"
    using assms(3,4) by (simp_all add: b_critical_holding)
  have "(max_ticket A + 1, a) < (b_ticket_of K, k)"
    using assms(1,3) hK by (simp add: b_pair_inv_def b_goes_first_def)
  moreover have "(max_ticket K + 1, k) < (b_ticket_of A, a)"
    using assms(2,4) hA by (simp add: b_pair_inv_def b_goes_first_def)
  ultimately show False using hA hK by (auto simp: b_ticket_of_def)
qed

lemma BakeryLock_exclusion_inv_new: "BakeryLock_exclusion_inv n (BakeryLock_new n)"
  by (auto simp: BakeryLock_exclusion_inv_def BakeryLock_new_def b_pair_inv_def
      bthread_new_def b_critical_def b_waiting_def)

lemma BakeryLock_exclusion_inv_step:
  assumes bi: "BakeryLock_inv n k s" and ex: "BakeryLock_exclusion_inv n s"
    and nk: "int n * int k \<le> INT_MAX"
  shows "BakeryLock_exclusion_inv n (BakeryLock_step n k tc s)"
proof (cases "fst tc < n")
  case False
  then show ?thesis using ex bi by (simp add: BakeryLock_step_def BakeryLock_inv_def)
next
  case True
  define t where "t = fst tc"
  define th where "th = bthreads s ! t"
  define m where "m = bmemory s"
  define r where "r = perform (BakeryLock_access_of n t th) (snd tc) (bviews s ! t) m"
  define v where "v = fst r"
  define th' where "th' = BakeryLock_after n k t th v"
  have t: "t < n" using True by (simp add: t_def)
  have len: "length (bthreads s) = n" "length (bviews s) = n"
    using bi by (simp_all add: BakeryLock_inv_def)
  have ne: "\<forall>x. vals m x \<noteq> []" using bi by (simp add: BakeryLock_inv_def m_def)
  have tc: "tc = (t, snd tc)" by (simp add: t_def)
  have st: "bthreads (BakeryLock_step n k tc s) = (bthreads s)[t := th']"
    using t len b_step_unfold [of t s n k "snd tc"]
    by (simp add: th_def r_def th'_def m_def v_def t_def)
  have ld: "v = last (vals m x)" if "BakeryLock_access_of n t th = Load x ord" for x ord
    unfolding v_def r_def by (rule b_read_latest [OF ne that])
  have ch: "\<forall>i < n. last (vals m (Choosing i)) = VBool (b_doorway (bthreads s ! i))"
    using bi by (simp add: BakeryLock_inv_def m_def)
  have tk: "\<forall>i < n. last (vals m (Number i)) = VInt (b_ticket_of (bthreads s ! i))"
    using bi by (simp add: BakeryLock_inv_def m_def)
  have ok: "\<forall>i < n. 0 \<le> max_ticket (bthreads s ! i)"
    using bi by (simp add: BakeryLock_inv_def b_thread_ok_def)
  have ov: "bpc th = B_take \<longrightarrow> max_ticket th < INT_MAX"
    using b_take_no_overflow [OF bi nk t] by (simp add: th_def)
  have pairs: "\<forall>a < n. \<forall>b < n. a \<noteq> b \<longrightarrow> b_pair_inv a (bthreads s ! a) b (bthreads s ! b)"
    using ex by (simp add: BakeryLock_exclusion_inv_def)
  have c1: "b_pair_inv a ((bthreads s)[t := th'] ! a) b ((bthreads s)[t := th'] ! b)"
    if a: "a < n" and b: "b < n" and ab: "a \<noteq> b" for a b
  proof (cases "a = t")
    case True
    let ?K = "bthreads s ! b"
    have inv: "b_pair_inv t th b ?K" using pairs a b ab True by (simp add: th_def)
    have hK: "b_holding ?K \<longrightarrow> 1 \<le> b_ticket_of ?K"
      using ok b by (simp add: b_ticket_of_def)
    have v1: "bpc th = B_await_choosing \<and> b_wait_i th = b \<longrightarrow> as_bool v = b_doorway ?K"
    proof
      assume p: "bpc th = B_await_choosing \<and> b_wait_i th = b"
      then have "BakeryLock_access_of n t th = Load (Choosing b) memory_order_seq_cst"
        using b ab True by (simp add: BakeryLock_access_of_def)
      then have "v = last (vals m (Choosing b))" by (rule ld)
      then show "as_bool v = b_doorway ?K" using ch b by simp
    qed
    have v2: "(bpc th = B_await_nonzero \<or> bpc th = B_await_less_other
               \<or> bpc th = B_await_equal_other) \<and> b_wait_i th = b
              \<longrightarrow> as_int v = b_ticket_of ?K"
    proof
      assume p: "(bpc th = B_await_nonzero \<or> bpc th = B_await_less_other
                  \<or> bpc th = B_await_equal_other) \<and> b_wait_i th = b"
      then have "BakeryLock_access_of n t th = Load (Number b) memory_order_seq_cst"
        by (auto simp: BakeryLock_access_of_def)
      then have "v = last (vals m (Number b))" by (rule ld)
      then show "as_int v = b_ticket_of ?K" using tk b by simp
    qed
    have v3: "bpc th = B_await_less_own \<or> bpc th = B_await_equal_own
              \<longrightarrow> as_int v = max_ticket th + 1"
    proof
      assume p: "bpc th = B_await_less_own \<or> bpc th = B_await_equal_own"
      then have "BakeryLock_access_of n t th = Load (Number t) memory_order_seq_cst"
        by (auto simp: BakeryLock_access_of_def)
      then have "v = last (vals m (Number t))" by (rule ld)
      then have "as_int v = b_ticket_of th" using tk t by (simp add: th_def)
      then show "as_int v = max_ticket th + 1"
        using p by (auto simp: b_ticket_of_def b_holding_def)
    qed
    have "b_pair_inv t th' b ?K"
      unfolding th'_def using ab True
      by (intro b_pair_inv_own_step [OF inv _ b hK v1 v2 v3]) simp
    then show ?thesis using True ab t len by simp
  next
    case False
    note at = False
    let ?A = "bthreads s ! a"
    show ?thesis
    proof (cases "b = t")
      case True
      have inv: "b_pair_inv a ?A t th" using pairs a b ab True by (simp add: th_def)
      have vs: "bpc th = B_scan \<and> b_scan_i th = a \<longrightarrow> as_int v = b_ticket_of ?A"
      proof
        assume p: "bpc th = B_scan \<and> b_scan_i th = a"
        then have "BakeryLock_access_of n t th = Load (Number a) memory_order_seq_cst"
          using a by (simp add: BakeryLock_access_of_def)
        then have "v = last (vals m (Number a))" by (rule ld)
        then show "as_int v = b_ticket_of ?A" using tk a by simp
      qed
      have "b_pair_inv a ?A t th'"
        unfolding th'_def using at
        by (intro b_pair_inv_other_step [OF inv _ a ov vs]) simp
      then show ?thesis using True at t len by simp
    next
      case False
      then show ?thesis using pairs a b ab at by simp
    qed
  qed
  show ?thesis
    unfolding BakeryLock_exclusion_inv_def st using c1 by blast
qed

lemma BakeryLock_exclusion_inv_run:
  assumes "BakeryLock_inv n k s" and "BakeryLock_exclusion_inv n s"
    and "int n * int k \<le> INT_MAX"
  shows "BakeryLock_exclusion_inv n (BakeryLock_run n k sched s)"
  using assms
proof (induction sched arbitrary: s)
  case Nil
  then show ?case by simp
next
  case (Cons tc sched)
  have "BakeryLock_exclusion_inv n (BakeryLock_run n k sched (BakeryLock_step n k tc s))"
    using Cons.prems by (intro Cons.IH BakeryLock_inv_step BakeryLock_exclusion_inv_step)
  then show ?case by simp
qed

text \<open>
  \<^verbatim>\<open>BakeryLock\<close>, whose loads are all sequentially consistent, excludes in every run,
  whatever the schedule offers to the loads: no two threads are between the return of
  \<^verbatim>\<open>lock\<close> and the store of \<^verbatim>\<open>unlock\<close> at once, and once every thread has returned the
  counter is \<open>n * k\<close>.
\<close>

lemma BakeryLock_excludes:
  assumes nk: "int n * int k \<le> INT_MAX"
    and b: "b = BakeryLock_run n k sched (BakeryLock_new n)"
  shows "(\<forall>i < n. \<forall>j < n. i \<noteq> j \<longrightarrow>
            \<not> (b_critical (bthreads b ! i) \<and> b_critical (bthreads b ! j))) \<and>
         ((\<forall>i < n. bpc (bthreads b ! i) = B_done) \<longrightarrow>
            as_int (value_at (bmemory b) Shared_counter) = int n * int k)"
proof -
  have bi: "BakeryLock_inv n k b" unfolding b by (rule BakeryLock_inv_reachable [OF nk])
  have ex: "BakeryLock_exclusion_inv n b"
    unfolding b
    by (rule BakeryLock_exclusion_inv_run
        [OF BakeryLock_inv_new BakeryLock_exclusion_inv_new nk])
  have pairs: "\<forall>i < n. \<forall>j < n. i \<noteq> j \<longrightarrow> b_pair_inv i (bthreads b ! i) j (bthreads b ! j)"
    using ex by (simp add: BakeryLock_exclusion_inv_def)
  have a: "\<forall>i < n. \<forall>j < n. i \<noteq> j \<longrightarrow>
            \<not> (b_critical (bthreads b ! i) \<and> b_critical (bthreads b ! j))"
  proof (intro allI impI notI)
    fix i j assume ij: "i < n" "j < n" "i \<noteq> j"
      and cr: "b_critical (bthreads b ! i) \<and> b_critical (bthreads b ! j)"
    have "b_pair_inv i (bthreads b ! i) j (bthreads b ! j)"
        "b_pair_inv j (bthreads b ! j) i (bthreads b ! i)"
      using pairs ij by simp_all
    then show False using cr b_exclusion by blast
  qed
  have len: "length (bthreads b) = n" using bi by (simp add: BakeryLock_inv_def)
  have ne: "\<forall>x. vals (bmemory b) x \<noteq> []" using bi by (simp add: BakeryLock_inv_def)
  have cnt: "as_int (last (vals (bmemory b) Shared_counter))
             = sum_list (map b_counted (bthreads b))"
    using bi by (simp add: BakeryLock_inv_def)
  have ok: "\<forall>i < n. b_thread_ok k (sum_list (map b_taken (bthreads b))) (bthreads b ! i)"
    using bi by (simp add: BakeryLock_inv_def)
  have c: "as_int (value_at (bmemory b) Shared_counter) = int n * int k"
    if d: "\<forall>i < n. bpc (bthreads b ! i) = B_done"
  proof -
    have "\<forall>i < length (bthreads b). b_counted (bthreads b ! i) = int k"
      using d ok len by (auto simp: b_counted_def b_thread_ok_def)
    then have "sum_list (map b_counted (bthreads b)) = int (length (bthreads b)) * int k"
      by (rule sum_list_all_eq)
    then have i: "as_int (last (vals (bmemory b) Shared_counter)) = int n * int k"
      using cnt len by simp
    have v: "value_at (bmemory b) Shared_counter = last (vals (bmemory b) Shared_counter)"
      using value_at_vals [of "bmemory b" Shared_counter] ne by (auto simp: vals_def)
    show ?thesis using i v by simp
  qed
  show ?thesis using a c by blast
qed

section \<open>The claims on the bakery lock and the harness\<close>

text \<open>
  C8. \<^verbatim>\<open>main\<close> goes on to initialise the lock and create its threads when the number of
  threads is at most \<^verbatim>\<open>MAX_THREADS\<close>, and returns 1 before it has initialised or created
  anything when the number exceeds it.
\<close>

theorem C8_thread_count_guard:
  "(n \<le> max_threads \<longrightarrow>
      main_start n max_threads = Inr (init n) \<and> length (threads (init n)) = n) \<and>
   (max_threads < n \<longrightarrow> main_start n max_threads = Inl 1)"
  by (simp add: main_start_def init_def)

theorem C8_thread_count_guard_witness:
  "NUM_THREADS \<le> MAX_THREADS \<and> main_start NUM_THREADS MAX_THREADS = Inr (init NUM_THREADS) \<and>
   main_start 64 MAX_THREADS = Inr (init 64) \<and> length (threads (init 64)) = 64 \<and>
   MAX_THREADS < 65 \<and> main_start 65 MAX_THREADS = Inl 1"
  using C8_thread_count_guard [of NUM_THREADS MAX_THREADS]
    C8_thread_count_guard [of 64 MAX_THREADS] C8_thread_count_guard [of 65 MAX_THREADS]
  by (simp add: NUM_THREADS_def MAX_THREADS_def)

lemma BakeryLock_ticket_and_choosing:
  assumes "int n * int k \<le> INT_MAX" and "b = BakeryLock_run n k bsched (BakeryLock_new n)"
    and "i < n"
  shows "map fst (bmemory (BakeryLock_new n) (Number i)) = [VInt 0] \<and>
         map fst (bmemory (BakeryLock_new n) (Choosing i)) = [VBool False] \<and>
         (\<forall>msg \<in> set (bmemory b (Number i)). \<exists>x. fst msg = VInt x \<and> 0 \<le> x) \<and>
         (\<forall>t < n. \<forall>x v ord.
            BakeryLock_access_of n t (bthreads b ! t) = Store (Number x) v ord \<longrightarrow>
            x = t \<and>
            (bpc (bthreads b ! t) = B_take \<and> v = VInt (max_ticket (bthreads b ! t) + 1)
               \<and> 0 \<le> max_ticket (bthreads b ! t)
             \<or> bpc (bthreads b ! t) = B_unlock \<and> v = VInt 0)) \<and>
         value_at (bmemory b) (Choosing i)
           = VBool (bpc (bthreads b ! i) = B_scan \<or> bpc (bthreads b ! i) = B_take
                    \<or> bpc (bthreads b ! i) = B_chosen)"
proof -
  have inv: "BakeryLock_inv n k b"
    unfolding assms(2) by (rule BakeryLock_inv_reachable [OF assms(1)])
  have a: "map fst (bmemory (BakeryLock_new n) (Number i)) = [VInt 0]"
      "map fst (bmemory (BakeryLock_new n) (Choosing i)) = [VBool False]"
    by (simp_all add: BakeryLock_new_def initial_value_def)
  have b: "\<forall>msg \<in> set (bmemory b (Number i)). \<exists>x. fst msg = VInt x \<and> 0 \<le> x"
    using inv by (fastforce simp: BakeryLock_inv_def vals_def)
  have c: "\<forall>t < n. \<forall>x v ord.
            BakeryLock_access_of n t (bthreads b ! t) = Store (Number x) v ord \<longrightarrow>
            x = t \<and>
            (bpc (bthreads b ! t) = B_take \<and> v = VInt (max_ticket (bthreads b ! t) + 1)
               \<and> 0 \<le> max_ticket (bthreads b ! t)
             \<or> bpc (bthreads b ! t) = B_unlock \<and> v = VInt 0)"
  proof (intro allI impI)
    fix t x v ord
    assume t: "t < n"
      and st: "BakeryLock_access_of n t (bthreads b ! t) = Store (Number x) v ord"
    have "0 \<le> max_ticket (bthreads b ! t)"
      using inv t by (simp add: BakeryLock_inv_def b_thread_ok_def)
    then show "x = t \<and>
            (bpc (bthreads b ! t) = B_take \<and> v = VInt (max_ticket (bthreads b ! t) + 1)
               \<and> 0 \<le> max_ticket (bthreads b ! t)
             \<or> bpc (bthreads b ! t) = B_unlock \<and> v = VInt 0)"
      using st
      by (cases "bpc (bthreads b ! t)") (auto simp: BakeryLock_access_of_def split: if_splits)
  qed
  have ne: "bmemory b (Choosing i) \<noteq> []" using inv by (auto simp: BakeryLock_inv_def vals_def)
  have d: "value_at (bmemory b) (Choosing i)
           = VBool (bpc (bthreads b ! i) = B_scan \<or> bpc (bthreads b ! i) = B_take
                    \<or> bpc (bthreads b ! i) = B_chosen)"
    using inv assms(3) value_at_vals [of "bmemory b" "Choosing i", OF ne]
    by (simp add: BakeryLock_inv_def b_doorway_def)
  from a b c d show ?thesis by blast
qed

lemma lock_ticket_and_choosing:
  assumes "int n * int k \<le> INT_MAX" and "s = run n k sched (init n)" and "i < n"
  shows "map fst (memory (init n) (Number i)) = [VInt 0] \<and>
         map fst (memory (init n) (Choosing i)) = [VBool False] \<and>
         (\<forall>msg \<in> set (memory s (Number i)). \<exists>x. fst msg = VInt x \<and> 0 \<le> x) \<and>
         (\<forall>t < n. \<forall>x v ord. access_of n t (threads s ! t) = Store (Number x) v ord \<longrightarrow>
            x = t \<and>
            (pc (threads s ! t) = Take \<and> v = VInt (max_num (threads s ! t) + 1)
               \<and> 0 \<le> max_num (threads s ! t)
             \<or> pc (threads s ! t) = Unlock \<and> v = VInt 0)) \<and>
         value_at (memory s) (Choosing i)
           = VBool (pc (threads s ! i) = Scan \<or> pc (threads s ! i) = Take
                    \<or> pc (threads s ! i) = Chosen)"
proof -
  have h: "harness_inv n k s" and ti: "ticket_inv n s"
    unfolding assms(2) using invariants_reachable [OF assms(1)] by simp_all
  have a: "map fst (memory (init n) (Number i)) = [VInt 0]"
      "map fst (memory (init n) (Choosing i)) = [VBool False]"
    by (simp_all add: init_def initial_value_def)
  have b: "\<forall>msg \<in> set (memory s (Number i)). \<exists>x. fst msg = VInt x \<and> 0 \<le> x"
    using ti by (fastforce simp: ticket_inv_def vals_def)
  have c: "\<forall>t < n. \<forall>x v ord. access_of n t (threads s ! t) = Store (Number x) v ord \<longrightarrow>
            x = t \<and>
            (pc (threads s ! t) = Take \<and> v = VInt (max_num (threads s ! t) + 1)
               \<and> 0 \<le> max_num (threads s ! t)
             \<or> pc (threads s ! t) = Unlock \<and> v = VInt 0)"
  proof (intro allI impI)
    fix t x v ord
    assume t: "t < n" and st: "access_of n t (threads s ! t) = Store (Number x) v ord"
    have "0 \<le> max_num (threads s ! t)" using ti t by (simp add: ticket_inv_def thread_ok_def)
    then show "x = t \<and>
            (pc (threads s ! t) = Take \<and> v = VInt (max_num (threads s ! t) + 1)
               \<and> 0 \<le> max_num (threads s ! t)
             \<or> pc (threads s ! t) = Unlock \<and> v = VInt 0)"
      using st by (cases "pc (threads s ! t)") (auto simp: access_of_def split: if_splits)
  qed
  have ne: "memory s (Choosing i) \<noteq> []" using h by (auto simp: harness_inv_def vals_def)
  have d: "value_at (memory s) (Choosing i)
           = VBool (pc (threads s ! i) = Scan \<or> pc (threads s ! i) = Take
                    \<or> pc (threads s ! i) = Chosen)"
    using ti assms(3) value_at_vals [of "memory s" "Choosing i", OF ne]
    by (simp add: ticket_inv_def doorway_def)
  from a b c d show ?thesis by blast
qed

text \<open>
  C10. In every run of either program, with the iterations of all threads together fitting
  an \<^verbatim>\<open>int\<close>: the ticket of thread \<open>i\<close> starts at 0 and \<^verbatim>\<open>choosing[i]\<close> at false; every value
  the ticket has ever held is an integer that is not negative; a store to the ticket of
  thread \<open>x\<close> is made by thread \<open>x\<close> only, and is either the store of \<^verbatim>\<open>lock\<close>, of one more
  than a maximum that is not negative, or the store of \<^verbatim>\<open>unlock\<close>, of 0; and \<^verbatim>\<open>choosing[i]\<close> is
  true exactly while thread \<open>i\<close> is between its store of true and its store of false, the
  ticket being written in between. First for \<^verbatim>\<open>BakeryLock\<close>, then for the program with the
  harness.
\<close>

theorem C10_ticket_and_choosing_invariant:
  assumes "int n * int k \<le> INT_MAX" and "b = BakeryLock_run n k bsched (BakeryLock_new n)"
    and "s = run n k sched (init n)" and "i < n"
  shows "(map fst (bmemory (BakeryLock_new n) (Number i)) = [VInt 0] \<and>
          map fst (bmemory (BakeryLock_new n) (Choosing i)) = [VBool False] \<and>
          (\<forall>msg \<in> set (bmemory b (Number i)). \<exists>x. fst msg = VInt x \<and> 0 \<le> x) \<and>
          (\<forall>t < n. \<forall>x v ord.
             BakeryLock_access_of n t (bthreads b ! t) = Store (Number x) v ord \<longrightarrow>
             x = t \<and>
             (bpc (bthreads b ! t) = B_take \<and> v = VInt (max_ticket (bthreads b ! t) + 1)
                \<and> 0 \<le> max_ticket (bthreads b ! t)
              \<or> bpc (bthreads b ! t) = B_unlock \<and> v = VInt 0)) \<and>
          value_at (bmemory b) (Choosing i)
            = VBool (bpc (bthreads b ! i) = B_scan \<or> bpc (bthreads b ! i) = B_take
                     \<or> bpc (bthreads b ! i) = B_chosen)) \<and>
         (map fst (memory (init n) (Number i)) = [VInt 0] \<and>
          map fst (memory (init n) (Choosing i)) = [VBool False] \<and>
          (\<forall>msg \<in> set (memory s (Number i)). \<exists>x. fst msg = VInt x \<and> 0 \<le> x) \<and>
          (\<forall>t < n. \<forall>x v ord. access_of n t (threads s ! t) = Store (Number x) v ord \<longrightarrow>
             x = t \<and>
             (pc (threads s ! t) = Take \<and> v = VInt (max_num (threads s ! t) + 1)
                \<and> 0 \<le> max_num (threads s ! t)
              \<or> pc (threads s ! t) = Unlock \<and> v = VInt 0)) \<and>
          value_at (memory s) (Choosing i)
            = VBool (pc (threads s ! i) = Scan \<or> pc (threads s ! i) = Take
                     \<or> pc (threads s ! i) = Chosen))"
proof (rule conjI)
  show "map fst (bmemory (BakeryLock_new n) (Number i)) = [VInt 0] \<and>
          map fst (bmemory (BakeryLock_new n) (Choosing i)) = [VBool False] \<and>
          (\<forall>msg \<in> set (bmemory b (Number i)). \<exists>x. fst msg = VInt x \<and> 0 \<le> x) \<and>
          (\<forall>t < n. \<forall>x v ord.
             BakeryLock_access_of n t (bthreads b ! t) = Store (Number x) v ord \<longrightarrow>
             x = t \<and>
             (bpc (bthreads b ! t) = B_take \<and> v = VInt (max_ticket (bthreads b ! t) + 1)
                \<and> 0 \<le> max_ticket (bthreads b ! t)
              \<or> bpc (bthreads b ! t) = B_unlock \<and> v = VInt 0)) \<and>
          value_at (bmemory b) (Choosing i)
            = VBool (bpc (bthreads b ! i) = B_scan \<or> bpc (bthreads b ! i) = B_take
                     \<or> bpc (bthreads b ! i) = B_chosen)"
    by (rule BakeryLock_ticket_and_choosing [OF assms(1) assms(2) assms(4)])
next
  show "map fst (memory (init n) (Number i)) = [VInt 0] \<and>
          map fst (memory (init n) (Choosing i)) = [VBool False] \<and>
          (\<forall>msg \<in> set (memory s (Number i)). \<exists>x. fst msg = VInt x \<and> 0 \<le> x) \<and>
          (\<forall>t < n. \<forall>x v ord. access_of n t (threads s ! t) = Store (Number x) v ord \<longrightarrow>
             x = t \<and>
             (pc (threads s ! t) = Take \<and> v = VInt (max_num (threads s ! t) + 1)
                \<and> 0 \<le> max_num (threads s ! t)
              \<or> pc (threads s ! t) = Unlock \<and> v = VInt 0)) \<and>
          value_at (memory s) (Choosing i)
            = VBool (pc (threads s ! i) = Scan \<or> pc (threads s ! i) = Take
                     \<or> pc (threads s ! i) = Chosen)"
    by (rule lock_ticket_and_choosing [OF assms(1) assms(3) assms(4)])
qed

theorem C10_ticket_and_choosing_witness:
  "int 2 * int 1 \<le> INT_MAX \<and>
   bpc (bthreads (BakeryLock_run 2 1 (replicate 5 (0, None)) (BakeryLock_new 2)) ! 0) = B_take \<and>
   value_at (bmemory (BakeryLock_run 2 1 (replicate 5 (0, None)) (BakeryLock_new 2))) (Choosing 0)
     = VBool True \<and>
   pc (threads (run 2 1 (replicate 5 (0, None)) (init 2)) ! 0) = Take \<and>
   access_of 2 0 (threads (run 2 1 (replicate 5 (0, None)) (init 2)) ! 0)
     = Store (Number 0) (VInt 1) memory_order_seq_cst \<and>
   value_at (memory (run 2 1 (replicate 5 (0, None)) (init 2))) (Choosing 0) = VBool True"
proof -
  define b where "b = BakeryLock_run 2 1 (replicate 5 (0, None)) (BakeryLock_new 2)"
  define s where "s = run 2 1 (replicate 5 (0, None)) (init 2)"
  have nk: "int 2 * int 1 \<le> INT_MAX" by (simp add: INT_MAX_def)
  have i: "(0::nat) < 2" by simp
  have bp: "bpc (bthreads b ! 0) = B_take" unfolding b_def by code_simp
  have pc: "pc (threads s ! 0) = Take" unfolding s_def by code_simp
  have acc: "access_of 2 0 (threads s ! 0) = Store (Number 0) (VInt 1) memory_order_seq_cst"
    unfolding s_def by code_simp
  note inst = C10_ticket_and_choosing_invariant [OF nk b_def s_def i]
  have c1: "value_at (bmemory b) (Choosing 0) = VBool True"
    using inst [THEN conjunct1, THEN conjunct2, THEN conjunct2, THEN conjunct2, THEN conjunct2]
      bp by simp
  have c2: "value_at (memory s) (Choosing 0) = VBool True"
    using inst [THEN conjunct2, THEN conjunct2, THEN conjunct2, THEN conjunct2, THEN conjunct2]
      pc by simp
  from nk bp c1 pc acc c2 show ?thesis unfolding b_def s_def by blast
qed

lemma history_grows_step:
  assumes "harness_inv n k s"
  shows "length (vals (memory s) x) \<le> length (vals (memory (step n k tc s)) x)"
proof (cases "fst tc < n")
  case False
  then show ?thesis using assms by (simp add: step_def harness_inv_def)
next
  case True
  have len: "fst tc < length (threads s)" "length (views s) = length (threads s)"
    using assms True by (simp_all add: harness_inv_def)
  have ne: "\<forall>x. vals (memory s) x \<noteq> []" using assms by (simp add: harness_inv_def)
  have "step n k (fst tc, snd tc) s = step n k tc s" by simp
  then show ?thesis using step_unfold [OF len, of n k "snd tc"] vals_perform [OF ne]
    by simp
qed

lemma history_grows_run:
  assumes "harness_inv n k s"
  shows "length (vals (memory s) x) \<le> length (vals (memory (run n k sched s)) x)"
  using assms
proof (induction sched arbitrary: s)
  case Nil
  then show ?case by simp
next
  case (Cons tc sched)
  have "length (vals (memory s) x) \<le> length (vals (memory (step n k tc s)) x)"
    by (rule history_grows_step [OF Cons.prems])
  also have "\<dots> \<le> length (vals (memory (run n k sched (step n k tc s))) x)"
    by (rule Cons.IH [OF harness_inv_step [OF Cons.prems]])
  finally show ?case by simp
qed

lemma flag_set_iff:
  assumes "harness_inv n k s"
  shows "as_bool (value_at (memory s) Mutual_exclusion_violated)
         \<longleftrightarrow> 1 < length (vals (memory s) Mutual_exclusion_violated)
              \<or> as_bool (hd (vals (memory s) Mutual_exclusion_violated))"
proof -
  let ?h = "vals (memory s) Mutual_exclusion_violated"
  have ne: "?h \<noteq> []" using assms by (simp add: harness_inv_def)
  then have ne': "memory s Mutual_exclusion_violated \<noteq> []" by (auto simp: vals_def)
  have tl: "\<forall>v \<in> set (tl ?h). v = VBool True" using assms by (simp add: harness_inv_def)
  have va: "value_at (memory s) Mutual_exclusion_violated = last ?h"
    by (rule value_at_vals [of "memory s" Mutual_exclusion_violated, OF ne'])
  show ?thesis
  proof (cases "tl ?h = []")
    case True
    then have "?h = [hd ?h]" using ne by (cases ?h) simp_all
    then obtain v where hv: "?h = [v]" by blast
    show ?thesis using va by (simp add: hv)
  next
    case False
    then obtain v w ws where hv: "?h = v # w # ws" using ne
      by (cases ?h; cases "tl ?h") auto
    have "last (w # ws) \<in> set (w # ws)" by (rule last_in_set) simp
    then have "last (w # ws) = VBool True" using tl by (simp add: hv)
    then show ?thesis using va by (simp add: hv)
  qed
qed

lemma initial_flag_kept_step:
  assumes "harness_inv n k s"
  shows "hd (vals (memory (step n k tc s)) x) = hd (vals (memory s) x)"
proof (cases "fst tc < n")
  case False
  then show ?thesis using assms by (simp add: step_def harness_inv_def)
next
  case True
  have len: "fst tc < length (threads s)" "length (views s) = length (threads s)"
    using assms True by (simp_all add: harness_inv_def)
  have ne: "\<forall>x. vals (memory s) x \<noteq> []" using assms by (simp add: harness_inv_def)
  have "step n k (fst tc, snd tc) s = step n k tc s" by simp
  then show ?thesis using step_unfold [OF len, of n k "snd tc"] vals_perform [OF ne] ne
    by simp
qed

lemma initial_flag_kept_run:
  assumes "harness_inv n k s"
  shows "hd (vals (memory (run n k sched s)) x) = hd (vals (memory s) x)"
  using assms
  by (induction sched arbitrary: s) (simp_all add: initial_flag_kept_step harness_inv_step)

text \<open>
  C9. In every iteration the accesses of a thread in the protected section, the stores to
  the flag left out, are the increment of the occupancy counter, the increment of
  \<^verbatim>\<open>shared_counter\<close>, the second look at the occupancy counter and its decrement, in this
  order, whatever values are read. In every run the occupancy counter is the number of
  threads between their increment and their decrement; every store to the flag after its
  initialisation stores true; and a flag that reads as set reads as set after any
  continuation of the run.
\<close>

theorem C9_occupancy_bracket_and_sticky_flag:
  assumes "s = run n k sched (init n)" and "pc th = Enter"
  shows "take 4 (filter (\<lambda>a. a \<noteq> Store Mutual_exclusion_violated (VBool True) memory_order_relaxed)
                   (fst (exec n k t [v1, v2, v3, v4, v5, v6] th)))
           = [Fetch_add Inside_critical_section_count 1 memory_order_relaxed,
              Fetch_add Shared_counter 1 memory_order_relaxed,
              Load Inside_critical_section_count memory_order_relaxed,
              Fetch_sub Inside_critical_section_count 1 memory_order_relaxed] \<and>
         as_int (value_at (memory s) Inside_critical_section_count)
           = int (length (filter inside (threads s))) \<and>
         (\<forall>msg \<in> set (tl (memory s Mutual_exclusion_violated)). fst msg = VBool True) \<and>
         (as_bool (value_at (memory s) Mutual_exclusion_violated) \<longrightarrow>
            as_bool (value_at (memory (run n k later s)) Mutual_exclusion_violated))"
proof -
  have a: "take 4 (filter (\<lambda>a. a \<noteq> Store Mutual_exclusion_violated (VBool True) memory_order_relaxed)
                   (fst (exec n k t [v1, v2, v3, v4, v5, v6] th)))
           = [Fetch_add Inside_critical_section_count 1 memory_order_relaxed,
              Fetch_add Shared_counter 1 memory_order_relaxed,
              Load Inside_critical_section_count memory_order_relaxed,
              Fetch_sub Inside_critical_section_count 1 memory_order_relaxed]"
  proof (cases "0 < as_int v1")
    case True
    show ?thesis
      using assms(2) True by (cases "1 < as_int v4") (simp_all add: access_of_def after_def)
  next
    case False
    show ?thesis
      using assms(2) False by (cases "1 < as_int v3") (simp_all add: access_of_def after_def)
  qed
  have h: "harness_inv n k s" unfolding assms(1) by (rule harness_inv_run [OF harness_inv_init])
  have ne: "memory s Inside_critical_section_count \<noteq> []"
    using h by (auto simp: harness_inv_def vals_def)
  have b: "as_int (value_at (memory s) Inside_critical_section_count)
           = int (length (filter inside (threads s)))"
    using h value_at_vals [of "memory s" Inside_critical_section_count, OF ne]
    by (simp add: harness_inv_def sum_list_indicator)
  have c: "\<forall>msg \<in> set (tl (memory s Mutual_exclusion_violated)). fst msg = VBool True"
    using h by (simp add: harness_inv_def vals_def map_tl [symmetric])
  have d: "as_bool (value_at (memory (run n k later s)) Mutual_exclusion_violated)"
    if f: "as_bool (value_at (memory s) Mutual_exclusion_violated)"
  proof -
    have h': "harness_inv n k (run n k later s)" by (rule harness_inv_run [OF h])
    have "1 < length (vals (memory s) Mutual_exclusion_violated)
          \<or> as_bool (hd (vals (memory s) Mutual_exclusion_violated))"
      using f flag_set_iff [OF h] by simp
    moreover have "length (vals (memory s) Mutual_exclusion_violated)
          \<le> length (vals (memory (run n k later s)) Mutual_exclusion_violated)"
      by (rule history_grows_run [OF h])
    moreover have "hd (vals (memory (run n k later s)) Mutual_exclusion_violated)
          = hd (vals (memory s) Mutual_exclusion_violated)"
      by (rule initial_flag_kept_run [OF h])
    ultimately show ?thesis using flag_set_iff [OF h'] by auto
  qed
  from a b c d show ?thesis by blast
qed

theorem C9_occupancy_bracket_and_sticky_flag_witness:
  "pc (thread_new\<lparr>pc := Enter\<rparr>) = Enter \<and>
   take 4 (filter (\<lambda>a. a \<noteq> Store Mutual_exclusion_violated (VBool True) memory_order_relaxed)
             (fst (exec 2 1 0 [VInt 1, VInt 0, VInt 0, VInt 2, VInt 0, VInt 0]
                (thread_new\<lparr>pc := Enter\<rparr>))))
     = [Fetch_add Inside_critical_section_count 1 memory_order_relaxed,
        Fetch_add Shared_counter 1 memory_order_relaxed,
        Load Inside_critical_section_count memory_order_relaxed,
        Fetch_sub Inside_critical_section_count 1 memory_order_relaxed] \<and>
   as_int (value_at (memory (run 2 1 (stale_run_first @ stale_run_second) (init 2)))
      Inside_critical_section_count) = 2 \<and>
   as_bool (value_at (memory (run 2 1 (stale_run_first @ stale_run_second) (init 2)))
      Mutual_exclusion_violated) \<and>
   as_bool (value_at (memory (run 2 1 stale_run_rest
      (run 2 1 (stale_run_first @ stale_run_second) (init 2)))) Mutual_exclusion_violated)"
proof -
  have p: "pc (thread_new\<lparr>pc := Enter\<rparr>) = Enter" by simp
  have f: "as_bool (value_at (memory (run 2 1 (stale_run_first @ stale_run_second) (init 2)))
      Mutual_exclusion_violated)"
    by code_simp
  have i: "length (filter inside (threads (run 2 1 (stale_run_first @ stale_run_second) (init 2))))
      = 2"
    by code_simp
  from C9_occupancy_bracket_and_sticky_flag
      [where n = 2 and k = 1 and sched = "stale_run_first @ stale_run_second"
         and th = "thread_new\<lparr>pc := Enter\<rparr>" and t = 0 and ?v1.0 = "VInt 1"
         and ?v2.0 = "VInt 0" and ?v3.0 = "VInt 0" and ?v4.0 = "VInt 2" and ?v5.0 = "VInt 0"
         and ?v6.0 = "VInt 0" and later = stale_run_rest, OF refl p] p f i
  show ?thesis by simp
qed

subsection \<open>The doorway\<close>

lemma exec_append:
  "exec n k t (vs @ ws) th
     = (fst (exec n k t vs th) @ fst (exec n k t ws (snd (exec n k t vs th))),
        snd (exec n k t ws (snd (exec n k t vs th))))"
  by (induction vs arbitrary: th) simp_all

text \<open>The loop of the scan leaves in \<^verbatim>\<open>max_num\<close> the greatest of its start value and the
  values read.\<close>

lemma scan_max:
  fixes m0 :: int
  shows "foldl (\<lambda>m c. if c > m then c else m) m0 rs = Max (insert m0 (set rs))"
proof (induction rs arbitrary: m0)
  case Nil
  then show ?case by simp
next
  case (Cons r rs)
  have "Max (insert (max m0 r) (set rs)) = Max (insert m0 (insert r (set rs)))"
    by (cases "set rs = {}") (simp_all add: max.assoc)
  moreover have "(if m0 < r then r else m0) = max m0 r" by (auto simp: max_def)
  ultimately have "Max (insert (if m0 < r then r else m0) (set rs))
      = Max (insert m0 (insert r (set rs)))"
    by simp
  then show ?case using Cons.IH [of "if m0 < r then r else m0"] by simp
qed

lemma exec_scan:
  assumes "pc th = Scan" and "scan_i th + length rs = n"
  shows "exec n k t (map VInt rs) th
         = (map (\<lambda>i. Load (Number i) memory_order_relaxed) [scan_i th..<n],
            th\<lparr>max_num := foldl (\<lambda>m c. if c > m then c else m) (max_num th) rs,
               scan_i := n\<rparr>)"
  using assms
proof (induction rs arbitrary: th)
  case Nil
  then show ?case by simp
next
  case (Cons r rs)
  let ?th = "after n k t th (VInt r)"
  have lt: "scan_i th < n" using Cons.prems(2) by simp
  have a: "?th = th\<lparr>max_num := (if r > max_num th then r else max_num th),
                    scan_i := scan_i th + 1\<rparr>"
    using Cons.prems(1) lt by (simp add: after_def)
  have b: "pc ?th = Scan" "scan_i ?th + length rs = n"
    using Cons.prems a by simp_all
  have c: "access_of n t th = Load (Number (scan_i th)) memory_order_relaxed"
    using Cons.prems(1) lt by (simp add: access_of_def)
  have d: "[scan_i th..<n] = scan_i th # [scan_i th + 1..<n]"
    using lt by (simp add: upt_conv_Cons)
  show ?case using Cons.IH [OF b] c d by (simp add: a)
qed

lemma lock_doorway:
  assumes "pc th = Choose" and "length rs = n" and "0 < n"
    and "\<forall>r \<in> set rs. 0 \<le> r \<and> r < INT_MAX"
  shows "fst (exec n k t (x # map VInt rs @ [y, z, w]) th)
           = Store (Choosing t) (VBool True) memory_order_seq_cst
             # map (\<lambda>i. Load (Number i) memory_order_relaxed) [0..<n]
             @ [Local,
                Store (Number t) (VInt (1 + Max (set rs))) memory_order_seq_cst,
                Store (Choosing t) (VBool False) memory_order_seq_cst]"
proof -
  define th1 where "th1 = after n k t th x"
  have th1: "th1 = th\<lparr>max_num := 0, scan_i := 0, pc := Scan\<rparr>"
    using assms(1) by (simp add: th1_def after_def)
  have s1: "pc th1 = Scan" "scan_i th1 + length rs = n" using assms(2) by (simp_all add: th1)
  define mx where "mx = foldl (\<lambda>m c. if c > m then c else m) 0 rs"
  define th2 where "th2 = th1\<lparr>max_num := mx, scan_i := n\<rparr>"
  have sc: "exec n k t (map VInt rs) th1
            = (map (\<lambda>i. Load (Number i) memory_order_relaxed) [0..<n], th2)"
    using exec_scan [OF s1, of k t] by (simp add: th1 th2_def mx_def)
  have ne: "rs \<noteq> []" using assms(2,3) by auto
  have nn: "\<forall>r \<in> set rs. 0 \<le> r" using assms(4) by blast
  have mx: "mx = Max (set rs)" by (simp add: mx_def scan_max max_of_tickets [OF ne nn])
  have "Max (set rs) \<in> set rs" using ne by simp
  then have lt: "mx < INT_MAX" using assms(4) mx by simp
  have tl: "fst (exec n k t [y, z, w] th2)
            = [Local, Store (Number t) (VInt (1 + Max (set rs))) memory_order_seq_cst,
               Store (Choosing t) (VBool False) memory_order_seq_cst]"
    using lt by (simp add: th2_def th1 access_of_def after_def mx)
  show ?thesis
    using assms(1) sc tl by (simp add: exec_append th1_def [symmetric] access_of_def)
qed

lemma lock_take_step:
  assumes nk: "int n * int k \<le> INT_MAX" and s: "s = run n k sched (init n)" and t: "t < n"
    and pc: "pc (threads s ! t) = Take"
  shows "value_at (memory s) (Choosing t) = VBool True \<and>
         value_at (memory (step n k (t, c) s)) (Number t)
           = VInt (max_num (threads s ! t) + 1) \<and>
         value_at (memory (step n k (t, c) s)) (Choosing t) = VBool True \<and>
         pc (threads (step n k (t, c) s) ! t) = Chosen"
proof -
  have h: "harness_inv n k s" and ti: "ticket_inv n s"
    unfolding s using invariants_reachable [OF nk] by simp_all
  have len: "t < length (threads s)" "length (views s) = length (threads s)"
    using h t by (simp_all add: harness_inv_def)
  have nev: "\<forall>x. vals (memory s) x \<noteq> []" using h by (simp add: harness_inv_def)
  then have nem: "memory s (Choosing t) \<noteq> []" by (auto simp: vals_def)
  have ch: "last (vals (memory s) (Choosing t)) = VBool True"
    using ti t pc by (simp add: ticket_inv_def doorway_def)
  have c1: "value_at (memory s) (Choosing t) = VBool True"
    using ch value_at_vals [of "memory s" "Choosing t", OF nem] by simp
  have ov: "max_num (threads s ! t) < INT_MAX"
    by (rule take_no_overflow [OF h ti nk t pc])
  define s' where "s' = step n k (t, c) s"
  have h': "harness_inv n k s'" unfolding s'_def by (rule harness_inv_step [OF h])
  have nev': "\<forall>x. vals (memory s') x \<noteq> []" using h' by (simp add: harness_inv_def)
  have v': "vals (memory s') y = vals (memory s) y @ appended t (threads s ! t) (memory s) y"
    for y
    unfolding s'_def using step_unfold [OF len, of n k c] vals_perform [OF nev] by simp
  have "memory s' (Number t) \<noteq> []" using nev' by (auto simp: vals_def)
  then have c2: "value_at (memory s') (Number t) = VInt (max_num (threads s ! t) + 1)"
    using value_at_vals [of "memory s'" "Number t"] pc ov
    by (simp add: v' appended_def effect_def)
  have "memory s' (Choosing t) \<noteq> []" using nev' by (auto simp: vals_def)
  then have c3: "value_at (memory s') (Choosing t) = VBool True"
    using value_at_vals [of "memory s'" "Choosing t"] pc ov ch
    by (simp add: v' appended_def effect_def)
  have c4: "pc (threads s' ! t) = Chosen"
    unfolding s'_def using step_unfold [OF len, of n k c] len pc ov
    by (simp add: after_def)
  from c1 c2 c3 c4 show ?thesis unfolding s'_def by blast
qed

lemma BakeryLock_take_step:
  assumes nk: "int n * int k \<le> INT_MAX"
    and s: "s = BakeryLock_run n k sched (BakeryLock_new n)" and t: "t < n"
    and pc: "bpc (bthreads s ! t) = B_take"
  shows "value_at (bmemory s) (Choosing t) = VBool True \<and>
         value_at (bmemory (BakeryLock_step n k (t, c) s)) (Number t)
           = VInt (max_ticket (bthreads s ! t) + 1) \<and>
         value_at (bmemory (BakeryLock_step n k (t, c) s)) (Choosing t) = VBool True \<and>
         bpc (bthreads (BakeryLock_step n k (t, c) s) ! t) = B_chosen"
proof -
  have inv: "BakeryLock_inv n k s" unfolding s by (rule BakeryLock_inv_reachable [OF nk])
  have len: "t < length (bthreads s)" "length (bviews s) = length (bthreads s)"
    using inv t by (simp_all add: BakeryLock_inv_def)
  have nev: "\<forall>x. vals (bmemory s) x \<noteq> []" using inv by (simp add: BakeryLock_inv_def)
  then have nem: "bmemory s (Choosing t) \<noteq> []" by (auto simp: vals_def)
  have ch: "last (vals (bmemory s) (Choosing t)) = VBool True"
    using inv t pc by (simp add: BakeryLock_inv_def b_doorway_def)
  have c1: "value_at (bmemory s) (Choosing t) = VBool True"
    using ch value_at_vals [of "bmemory s" "Choosing t", OF nem] by simp
  have ov: "max_ticket (bthreads s ! t) < INT_MAX"
    by (rule b_take_no_overflow [OF inv nk t pc])
  define s' where "s' = BakeryLock_step n k (t, c) s"
  have inv': "BakeryLock_inv n k s'" unfolding s'_def by (rule BakeryLock_inv_step [OF inv nk])
  have nev': "\<forall>x. vals (bmemory s') x \<noteq> []" using inv' by (simp add: BakeryLock_inv_def)
  have v': "vals (bmemory s') y
            = vals (bmemory s) y @ b_appended t (bthreads s ! t) (bmemory s) y" for y
    unfolding s'_def using b_step_unfold [OF len, of n k c] b_vals_perform [OF nev] by simp
  have "bmemory s' (Number t) \<noteq> []" using nev' by (auto simp: vals_def)
  then have c2: "value_at (bmemory s') (Number t) = VInt (max_ticket (bthreads s ! t) + 1)"
    using value_at_vals [of "bmemory s'" "Number t"] pc ov
    by (simp add: v' b_appended_def b_effect_def)
  have "bmemory s' (Choosing t) \<noteq> []" using nev' by (auto simp: vals_def)
  then have c3: "value_at (bmemory s') (Choosing t) = VBool True"
    using value_at_vals [of "bmemory s'" "Choosing t"] pc ov ch
    by (simp add: v' b_appended_def b_effect_def)
  have c4: "bpc (bthreads s' ! t) = B_chosen"
    unfolding s'_def using b_step_unfold [OF len, of n k c] len pc ov
    by (simp add: BakeryLock_after_def)
  from c1 c2 c3 c4 show ?thesis unfolding s'_def by blast
qed

text \<open>
  C4. A thread at the start of \<^verbatim>\<open>lock\<close>, whose scan reads \<open>rs\<close>, tickets that are not
  negative and below \<^verbatim>\<open>INT_MAX\<close>, one for each of the \<open>n\<close> threads: its accesses are the
  store of true to \<^verbatim>\<open>choosing[t]\<close>, the \<open>n\<close> loads of the scan, the store of one plus the
  greatest value read to the ticket of \<open>t\<close>, and at once the store of false to
  \<^verbatim>\<open>choosing[t]\<close>. The ticket is above every value read. And in every run, when thread \<open>t\<close>
  is about to store its ticket, \<^verbatim>\<open>choosing[t]\<close> is true; the step stores the maximum plus
  one and leaves \<^verbatim>\<open>choosing[t]\<close> true. First for \<^verbatim>\<open>BakeryLock::lock\<close>, whose scan loads are
  sequentially consistent, then for \<^verbatim>\<open>lock\<close> of the program with the harness, whose scan
  loads are relaxed.
\<close>

theorem C4_ticket_is_one_more_than_scanned_maximum:
  assumes "length rs = n" and "0 < n" and "\<forall>r \<in> set rs. 0 \<le> r \<and> r < INT_MAX"
    and "int n * int k \<le> INT_MAX" and "t < n"
    and "bpc bth = B_choose" and "b = BakeryLock_run n k bsched (BakeryLock_new n)"
    and "bpc (bthreads b ! t) = B_take"
    and "pc th = Choose" and "s = run n k sched (init n)" and "pc (threads s ! t) = Take"
  shows "(\<forall>r \<in> set rs. r < 1 + Max (set rs)) \<and>
         fst (BakeryLock_exec n k t (x # map VInt rs @ [y, z, w]) bth)
           = Store (Choosing t) (VBool True) memory_order_seq_cst
             # map (\<lambda>i. Load (Number i) memory_order_seq_cst) [0..<n]
             @ [Local,
                Store (Number t) (VInt (1 + Max (set rs))) memory_order_seq_cst,
                Store (Choosing t) (VBool False) memory_order_seq_cst] \<and>
         (value_at (bmemory b) (Choosing t) = VBool True \<and>
          value_at (bmemory (BakeryLock_step n k (t, c) b)) (Number t)
            = VInt (max_ticket (bthreads b ! t) + 1) \<and>
          value_at (bmemory (BakeryLock_step n k (t, c) b)) (Choosing t) = VBool True \<and>
          bpc (bthreads (BakeryLock_step n k (t, c) b) ! t) = B_chosen) \<and>
         fst (exec n k t (x # map VInt rs @ [y, z, w]) th)
           = Store (Choosing t) (VBool True) memory_order_seq_cst
             # map (\<lambda>i. Load (Number i) memory_order_relaxed) [0..<n]
             @ [Local,
                Store (Number t) (VInt (1 + Max (set rs))) memory_order_seq_cst,
                Store (Choosing t) (VBool False) memory_order_seq_cst] \<and>
         (value_at (memory s) (Choosing t) = VBool True \<and>
          value_at (memory (step n k (t, c) s)) (Number t)
            = VInt (max_num (threads s ! t) + 1) \<and>
          value_at (memory (step n k (t, c) s)) (Choosing t) = VBool True \<and>
          pc (threads (step n k (t, c) s) ! t) = Chosen)"
proof (intro conjI ballI)
  fix r assume "r \<in> set rs"
  then have "r \<le> Max (set rs)" by simp
  then show "r < 1 + Max (set rs)" by simp
next
  show "fst (BakeryLock_exec n k t (x # map VInt rs @ [y, z, w]) bth)
           = Store (Choosing t) (VBool True) memory_order_seq_cst
             # map (\<lambda>i. Load (Number i) memory_order_seq_cst) [0..<n]
             @ [Local,
                Store (Number t) (VInt (1 + Max (set rs))) memory_order_seq_cst,
                Store (Choosing t) (VBool False) memory_order_seq_cst]"
    by (rule BakeryLock_doorway [OF assms(6) assms(1) assms(2) assms(3)])
next
  show "fst (exec n k t (x # map VInt rs @ [y, z, w]) th)
           = Store (Choosing t) (VBool True) memory_order_seq_cst
             # map (\<lambda>i. Load (Number i) memory_order_relaxed) [0..<n]
             @ [Local,
                Store (Number t) (VInt (1 + Max (set rs))) memory_order_seq_cst,
                Store (Choosing t) (VBool False) memory_order_seq_cst]"
    by (rule lock_doorway [OF assms(9) assms(1) assms(2) assms(3)])
next
  note bt = BakeryLock_take_step [OF assms(4) assms(7) assms(5) assms(8), of c]
  show "value_at (bmemory b) (Choosing t) = VBool True" using bt by blast
  show "value_at (bmemory (BakeryLock_step n k (t, c) b)) (Number t)
            = VInt (max_ticket (bthreads b ! t) + 1)" using bt by blast
  show "value_at (bmemory (BakeryLock_step n k (t, c) b)) (Choosing t) = VBool True"
    using bt by blast
  show "bpc (bthreads (BakeryLock_step n k (t, c) b) ! t) = B_chosen" using bt by blast
next
  note lt = lock_take_step [OF assms(4) assms(10) assms(5) assms(11), of c]
  show "value_at (memory s) (Choosing t) = VBool True" using lt by blast
  show "value_at (memory (step n k (t, c) s)) (Number t) = VInt (max_num (threads s ! t) + 1)"
    using lt by blast
  show "value_at (memory (step n k (t, c) s)) (Choosing t) = VBool True" using lt by blast
  show "pc (threads (step n k (t, c) s) ! t) = Chosen" using lt by blast
qed

theorem C4_ticket_is_one_more_than_scanned_maximum_witness:
  "fst (BakeryLock_exec 2 1 0 (VInt 0 # map VInt [3, 5] @ [VInt 0, VInt 0, VInt 0])
          (bthread_new\<lparr>bpc := B_choose\<rparr>))
     = Store (Choosing 0) (VBool True) memory_order_seq_cst
       # map (\<lambda>i. Load (Number i) memory_order_seq_cst) [0..<2]
       @ [Local, Store (Number 0) (VInt 6) memory_order_seq_cst,
          Store (Choosing 0) (VBool False) memory_order_seq_cst] \<and>
   fst (exec 2 1 0 (VInt 0 # map VInt [3, 5] @ [VInt 0, VInt 0, VInt 0])
          (thread_new\<lparr>pc := Choose\<rparr>))
     = Store (Choosing 0) (VBool True) memory_order_seq_cst
       # map (\<lambda>i. Load (Number i) memory_order_relaxed) [0..<2]
       @ [Local, Store (Number 0) (VInt 6) memory_order_seq_cst,
          Store (Choosing 0) (VBool False) memory_order_seq_cst] \<and>
   bpc (bthreads (BakeryLock_run 2 1 (replicate 5 (0, None)) (BakeryLock_new 2)) ! 0) = B_take \<and>
   value_at (bmemory (BakeryLock_run 2 1 (replicate 5 (0, None)) (BakeryLock_new 2))) (Choosing 0)
     = VBool True \<and>
   pc (threads (run 2 1 (replicate 5 (0, None)) (init 2)) ! 0) = Take \<and>
   value_at (memory (run 2 1 (replicate 5 (0, None)) (init 2))) (Choosing 0) = VBool True \<and>
   value_at (memory (step 2 1 (0, None) (run 2 1 (replicate 5 (0, None)) (init 2)))) (Number 0)
     = VInt 1"
proof -
  define b where "b = BakeryLock_run 2 1 (replicate 5 (0, None)) (BakeryLock_new 2)"
  define s where "s = run 2 1 (replicate 5 (0, None)) (init 2)"
  have l: "length [3, 5 :: int] = 2" "0 < (2::nat)" by simp_all
  have r: "\<forall>r \<in> set [3, 5 :: int]. 0 \<le> r \<and> r < INT_MAX" by (simp add: INT_MAX_def)
  have nk: "int 2 * int 1 \<le> INT_MAX" by (simp add: INT_MAX_def)
  have t: "(0::nat) < 2" by simp
  have bp: "bpc (bthread_new\<lparr>bpc := B_choose\<rparr>) = B_choose" by simp
  have p: "pc (thread_new\<lparr>pc := Choose\<rparr>) = Choose" by simp
  have bq: "bpc (bthreads b ! 0) = B_take" unfolding b_def by code_simp
  have q: "pc (threads s ! 0) = Take" unfolding s_def by code_simp
  have m: "max_num (threads s ! 0) = 0" unfolding s_def by code_simp
  have mx: "1 + Max (set [3, 5 :: int]) = 6" by simp
  note inst = C4_ticket_is_one_more_than_scanned_maximum
      [where rs = "[3, 5]" and x = "VInt 0" and y = "VInt 0" and z = "VInt 0" and w = "VInt 0"
         and c = None, OF l r nk t bp b_def bq p s_def q]
  have c1: "fst (BakeryLock_exec 2 1 0 (VInt 0 # map VInt [3, 5] @ [VInt 0, VInt 0, VInt 0])
          (bthread_new\<lparr>bpc := B_choose\<rparr>))
     = Store (Choosing 0) (VBool True) memory_order_seq_cst
       # map (\<lambda>i. Load (Number i) memory_order_seq_cst) [0..<2]
       @ [Local, Store (Number 0) (VInt 6) memory_order_seq_cst,
          Store (Choosing 0) (VBool False) memory_order_seq_cst]"
    using inst [THEN conjunct2, THEN conjunct1] unfolding mx .
  have c2: "fst (exec 2 1 0 (VInt 0 # map VInt [3, 5] @ [VInt 0, VInt 0, VInt 0])
          (thread_new\<lparr>pc := Choose\<rparr>))
     = Store (Choosing 0) (VBool True) memory_order_seq_cst
       # map (\<lambda>i. Load (Number i) memory_order_relaxed) [0..<2]
       @ [Local, Store (Number 0) (VInt 6) memory_order_seq_cst,
          Store (Choosing 0) (VBool False) memory_order_seq_cst]"
    using inst [THEN conjunct2, THEN conjunct2, THEN conjunct2, THEN conjunct1] unfolding mx .
  have c3: "value_at (bmemory b) (Choosing 0) = VBool True"
    using inst [THEN conjunct2, THEN conjunct2, THEN conjunct1, THEN conjunct1] .
  have c4: "value_at (memory s) (Choosing 0) = VBool True"
    using inst [THEN conjunct2, THEN conjunct2, THEN conjunct2, THEN conjunct2,
        THEN conjunct1] .
  have c5: "value_at (memory (step 2 1 (0, None) s)) (Number 0) = VInt 1"
    using inst [THEN conjunct2, THEN conjunct2, THEN conjunct2, THEN conjunct2,
        THEN conjunct2, THEN conjunct1] m by simp
  from c1 c2 bq c3 q c4 c5 show ?thesis unfolding b_def s_def by blast
qed

subsection \<open>The relaxed load of the scan\<close>

text \<open>
  C6. The claim asks that every load of \<^verbatim>\<open>number\<close> be sequentially consistent, the loads of
  the scan too. In the run with the stale read, thread 1 has stored its ticket 1 and
  entered, and thread 0 is in its scan, at \<^verbatim>\<open>number[1]\<close>. The load it makes is relaxed and
  may return the initial 0, where a sequentially consistent load returns 1. With 0 read,
  thread 0 takes ticket 1 as well, a ticket that is not above the ticket thread 1 holds.
\<close>

theorem C6_scan_load_is_relaxed_and_reads_stale:
  "value_at (memory (run 2 1 (stale_run_first @ take 3 stale_run_second) (init 2))) (Number 1)
     = VInt 1 \<and>
   access_of 2 0 (threads (run 2 1 (stale_run_first @ take 3 stale_run_second) (init 2)) ! 0)
     = Load (Number 1) memory_order_relaxed \<and>
   fst (perform (Load (Number 1) memory_order_relaxed) (Some 0)
          (views (run 2 1 (stale_run_first @ take 3 stale_run_second) (init 2)) ! 0)
          (memory (run 2 1 (stale_run_first @ take 3 stale_run_second) (init 2)))) = VInt 0 \<and>
   fst (perform (Load (Number 1) memory_order_seq_cst) (Some 0)
          (views (run 2 1 (stale_run_first @ take 3 stale_run_second) (init 2)) ! 0)
          (memory (run 2 1 (stale_run_first @ take 3 stale_run_second) (init 2)))) = VInt 1 \<and>
   value_at (memory (run 2 1 (stale_run_first @ take 6 stale_run_second) (init 2))) (Number 0)
     = VInt 1 \<and>
   value_at (memory (run 2 1 (stale_run_first @ take 6 stale_run_second) (init 2))) (Number 1)
     = VInt 1"
  by code_simp

text \<open>
  C1. The claim asks that in every run the occupancy never exceeds 1, the flag stays
  false, and the counter ends at the number of threads times the number of iterations. In
  the run with the stale read both threads are inside at once, with the occupancy counter
  at 2; when the threads are joined the flag is set and \<^verbatim>\<open>main\<close> returns 1. The counter is
  right: 2. The stale read is the only way in: the runs in which every load reads the
  latest value exclude (\<open>exclusion_when_reads_latest\<close>), and so does every run of
  \<^verbatim>\<open>BakeryLock\<close>, whose scan loads are sequentially consistent (\<open>BakeryLock_excludes\<close>).
\<close>

theorem C1_stale_scan_lets_two_threads_in:
  "inside (threads (run 2 1 (stale_run_first @ stale_run_second) (init 2)) ! 0) \<and>
   inside (threads (run 2 1 (stale_run_first @ stale_run_second) (init 2)) ! 1) \<and>
   value_at (memory (run 2 1 (stale_run_first @ stale_run_second) (init 2)))
     Inside_critical_section_count = VInt 2 \<and>
   joined (run 2 1 (stale_run_first @ stale_run_second @ stale_run_rest) (init 2)) \<and>
   value_at (memory (run 2 1 (stale_run_first @ stale_run_second @ stale_run_rest) (init 2)))
     Mutual_exclusion_violated = VBool True \<and>
   value_at (memory (run 2 1 (stale_run_first @ stale_run_second @ stale_run_rest) (init 2)))
     Shared_counter = VInt 2 \<and>
   main_result 2 1 (run 2 1 (stale_run_first @ stale_run_second @ stale_run_rest) (init 2)) = 1"
  by code_simp

subsection \<open>The wait\<close>

lemma poll_unfold:
  assumes "pc th = Await_number"
  shows "poll n k t th tj mine
         = (if tj \<noteq> 0 \<and> (tj < mine \<or> tj = mine \<and> wait_j th < t)
            then th\<lparr>num_j := tj, pc := Await_number\<rparr>
            else th\<lparr>num_j := tj, wait_j := wait_j th + 1, pc := Await_choosing\<rparr>)"
  using assms by (auto simp: poll_def after_def Let_def)

lemma own_ticket_read:
  assumes h: "harness_inv n k s" and ti: "ticket_inv n s" and t: "t < n"
    and pc: "pc (threads s ! t) = Await_less \<or> pc (threads s ! t) = Await_equal"
  shows "fst (perform (access_of n t (threads s ! t)) c (views s ! t) (memory s))
         = VInt (max_num (threads s ! t) + 1)"
proof -
  have ne: "memory s (Number t) \<noteq> []" using h by (auto simp: harness_inv_def vals_def)
  have "last (vals (memory s) (Number t)) = VInt (ticket_of (threads s ! t))"
    using ti t by (simp add: ticket_inv_def)
  moreover have "ticket_of (threads s ! t) = max_num (threads s ! t) + 1"
    using pc by (auto simp: ticket_of_def holding_def)
  moreover have "fst (perform (access_of n t (threads s ! t)) c (views s ! t) (memory s))
                 = fst (last (memory s (Number t)))"
    using pc by (auto simp: perform_def access_of_def)
  ultimately show ?thesis using ne by (simp add: vals_def last_map)
qed

lemma lock_wait:
  assumes "wait_j th = j" and "j < n" and "j \<noteq> t"
  shows "(pc th = Await_choosing \<longrightarrow>
            access_of n t th = Load (Choosing j) memory_order_seq_cst \<and>
            after n k t th v = (if as_bool v then th else th\<lparr>pc := Await_number\<rparr>)) \<and>
         (pc th = Await_number \<longrightarrow>
            access_of n t th = Load (Number j) memory_order_seq_cst \<and>
            poll n k t th tj mine
              = (if tj \<noteq> 0 \<and> (tj, j) < (mine, t)
                 then th\<lparr>num_j := tj, pc := Await_number\<rparr>
                 else th\<lparr>num_j := tj, wait_j := j + 1, pc := Await_choosing\<rparr>)) \<and>
         (wait_j (after n k t u v) = wait_j u
          \<or> pc u = Chosen \<and> wait_j (after n k t u v) = 0
          \<or> wait_j (after n k t u v) = wait_j u + 1 \<and>
             (pc u = Await_choosing \<and> wait_j u = t
              \<or> pc u = Await_number \<and> as_int v = 0
              \<or> pc u = Await_equal \<and> \<not> (num_j u = as_int v \<and> wait_j u < t))) \<and>
         (pc (after n k t u v) = Enter \<longrightarrow> pc u = Await_choosing \<and> n \<le> wait_j u)"
proof -
  have a: "pc th = Await_choosing \<longrightarrow>
            access_of n t th = Load (Choosing j) memory_order_seq_cst \<and>
            after n k t th v = (if as_bool v then th else th\<lparr>pc := Await_number\<rparr>)"
    using assms by (auto simp: access_of_def after_def)
  have b: "pc th = Await_number \<longrightarrow>
            access_of n t th = Load (Number j) memory_order_seq_cst \<and>
            poll n k t th tj mine
              = (if tj \<noteq> 0 \<and> (tj, j) < (mine, t)
                 then th\<lparr>num_j := tj, pc := Await_number\<rparr>
                 else th\<lparr>num_j := tj, wait_j := j + 1, pc := Await_choosing\<rparr>)"
  proof
    assume p: "pc th = Await_number"
    have "access_of n t th = Load (Number j) memory_order_seq_cst"
      using p assms(1) by (simp add: access_of_def)
    moreover have "(tj, j) < (mine, t) \<longleftrightarrow> tj < mine \<or> tj = mine \<and> j < t" by auto
    ultimately show "access_of n t th = Load (Number j) memory_order_seq_cst \<and>
            poll n k t th tj mine
              = (if tj \<noteq> 0 \<and> (tj, j) < (mine, t)
                 then th\<lparr>num_j := tj, pc := Await_number\<rparr>
                 else th\<lparr>num_j := tj, wait_j := j + 1, pc := Await_choosing\<rparr>)"
      using poll_unfold [OF p, of n k t tj mine] assms(1) by simp
  qed
  have c: "wait_j (after n k t u v) = wait_j u
          \<or> pc u = Chosen \<and> wait_j (after n k t u v) = 0
          \<or> wait_j (after n k t u v) = wait_j u + 1 \<and>
             (pc u = Await_choosing \<and> wait_j u = t
              \<or> pc u = Await_number \<and> as_int v = 0
              \<or> pc u = Await_equal \<and> \<not> (num_j u = as_int v \<and> wait_j u < t))"
    by (cases "pc u") (auto simp: after_def)
  have d: "pc (after n k t u v) = Enter \<longrightarrow> pc u = Await_choosing \<and> n \<le> wait_j u"
    by (cases "pc u") (auto simp: after_def split: if_splits)
  from a b c d show ?thesis by blast
qed

lemma BakeryLock_wait:
  assumes "b_wait_i th = j" and "j < n" and "j \<noteq> t"
  shows "(bpc th = B_await_choosing \<longrightarrow>
            BakeryLock_access_of n t th = Load (Choosing j) memory_order_seq_cst \<and>
            BakeryLock_after n k t th v
              = (if as_bool v then th else th\<lparr>bpc := B_await_nonzero\<rparr>)) \<and>
         (bpc th = B_await_nonzero \<longrightarrow>
            BakeryLock_access_of n t th = Load (Number j) memory_order_seq_cst \<and>
            bpc (BakeryLock_poll n k t th tj mine)
              = (if tj \<noteq> 0 \<and> (tj, j) < (mine, t) then B_await_nonzero else B_await_choosing) \<and>
            b_wait_i (BakeryLock_poll n k t th tj mine)
              = (if tj \<noteq> 0 \<and> (tj, j) < (mine, t) then j else j + 1)) \<and>
         (b_wait_i (BakeryLock_after n k t u v) = b_wait_i u
          \<or> bpc u = B_chosen \<and> b_wait_i (BakeryLock_after n k t u v) = 0
          \<or> b_wait_i (BakeryLock_after n k t u v) = b_wait_i u + 1 \<and>
             (bpc u = B_await_choosing \<and> b_wait_i u = t
              \<or> bpc u = B_await_nonzero \<and> as_int v = 0
              \<or> bpc u = B_await_equal_own \<and> \<not> (lhs u = as_int v \<and> b_wait_i u < t))) \<and>
         (bpc (BakeryLock_after n k t u v) = B_critical \<longrightarrow>
            bpc u = B_await_choosing \<and> n \<le> b_wait_i u)"
proof -
  have a: "bpc th = B_await_choosing \<longrightarrow>
            BakeryLock_access_of n t th = Load (Choosing j) memory_order_seq_cst \<and>
            BakeryLock_after n k t th v
              = (if as_bool v then th else th\<lparr>bpc := B_await_nonzero\<rparr>)"
    using assms by (auto simp: BakeryLock_access_of_def BakeryLock_after_def)
  have b: "bpc th = B_await_nonzero \<longrightarrow>
            BakeryLock_access_of n t th = Load (Number j) memory_order_seq_cst \<and>
            bpc (BakeryLock_poll n k t th tj mine)
              = (if tj \<noteq> 0 \<and> (tj, j) < (mine, t) then B_await_nonzero else B_await_choosing) \<and>
            b_wait_i (BakeryLock_poll n k t th tj mine)
              = (if tj \<noteq> 0 \<and> (tj, j) < (mine, t) then j else j + 1)"
  proof
    assume p: "bpc th = B_await_nonzero"
    have "BakeryLock_access_of n t th = Load (Number j) memory_order_seq_cst"
      using p assms(1) by (simp add: BakeryLock_access_of_def)
    moreover have "(tj, j) < (mine, t) \<longleftrightarrow> tj < mine \<or> tj = mine \<and> j < t" by auto
    ultimately show "BakeryLock_access_of n t th = Load (Number j) memory_order_seq_cst \<and>
            bpc (BakeryLock_poll n k t th tj mine)
              = (if tj \<noteq> 0 \<and> (tj, j) < (mine, t) then B_await_nonzero else B_await_choosing) \<and>
            b_wait_i (BakeryLock_poll n k t th tj mine)
              = (if tj \<noteq> 0 \<and> (tj, j) < (mine, t) then j else j + 1)"
      using BakeryLock_poll_unfold [OF p, of n k t tj mine] assms(1) by simp
  qed
  have c: "b_wait_i (BakeryLock_after n k t u v) = b_wait_i u
          \<or> bpc u = B_chosen \<and> b_wait_i (BakeryLock_after n k t u v) = 0
          \<or> b_wait_i (BakeryLock_after n k t u v) = b_wait_i u + 1 \<and>
             (bpc u = B_await_choosing \<and> b_wait_i u = t
              \<or> bpc u = B_await_nonzero \<and> as_int v = 0
              \<or> bpc u = B_await_equal_own \<and> \<not> (lhs u = as_int v \<and> b_wait_i u < t))"
    by (cases "bpc u") (auto simp: BakeryLock_after_def)
  have d: "bpc (BakeryLock_after n k t u v) = B_critical \<longrightarrow>
            bpc u = B_await_choosing \<and> n \<le> b_wait_i u"
    by (cases "bpc u") (auto simp: BakeryLock_after_def split: if_splits)
  from a b c d show ?thesis by blast
qed

text \<open>
  C5. A thread in the wait of \<^verbatim>\<open>lock\<close>, at another thread \<open>j\<close>. At the first \<^verbatim>\<open>while\<close> it
  loads \<^verbatim>\<open>choosing[j]\<close>, stays where it is if it reads true, and goes on to the second
  \<^verbatim>\<open>while\<close> if it reads false. One evaluation of the condition of the second \<^verbatim>\<open>while\<close>, with
  the ticket of \<open>j\<close> read as \<open>tj\<close> and the thread's own as \<open>mine\<close>, leaves the thread at the
  same \<open>j\<close>, to evaluate again, exactly if \<open>tj\<close> is not 0 and \<open>(tj, j)\<close> is below \<open>(mine, t)\<close>
  in the lexicographic order; otherwise it moves to \<open>j + 1\<close>. The index starts at 0 after
  the doorway and changes in no other way than by one at a time, when \<open>j\<close> is the thread
  itself or when the condition on the ticket of \<open>j\<close> is false; and \<^verbatim>\<open>lock\<close> returns only at
  the head of the loop with the index past the last thread. In every run, the loads of the
  thread's own ticket in the condition return the ticket it took. First for
  \<^verbatim>\<open>BakeryLock::lock\<close>, then for \<^verbatim>\<open>lock\<close> of the program with the harness.
\<close>

theorem C5_wait_for_each_other_thread:
  assumes "j < n" and "j \<noteq> t" and "int n * int k \<le> INT_MAX" and "t < n"
    and "b_wait_i bth = j" and "b = BakeryLock_run n k bsched (BakeryLock_new n)"
    and "bpc (bthreads b ! t) = B_await_less_own \<or> bpc (bthreads b ! t) = B_await_equal_own"
    and "wait_j th = j" and "s = run n k sched (init n)"
    and "pc (threads s ! t) = Await_less \<or> pc (threads s ! t) = Await_equal"
  shows "((bpc bth = B_await_choosing \<longrightarrow>
            BakeryLock_access_of n t bth = Load (Choosing j) memory_order_seq_cst \<and>
            BakeryLock_after n k t bth v
              = (if as_bool v then bth else bth\<lparr>bpc := B_await_nonzero\<rparr>)) \<and>
          (bpc bth = B_await_nonzero \<longrightarrow>
            BakeryLock_access_of n t bth = Load (Number j) memory_order_seq_cst \<and>
            bpc (BakeryLock_poll n k t bth tj mine)
              = (if tj \<noteq> 0 \<and> (tj, j) < (mine, t) then B_await_nonzero else B_await_choosing) \<and>
            b_wait_i (BakeryLock_poll n k t bth tj mine)
              = (if tj \<noteq> 0 \<and> (tj, j) < (mine, t) then j else j + 1)) \<and>
          (b_wait_i (BakeryLock_after n k t bu v) = b_wait_i bu
           \<or> bpc bu = B_chosen \<and> b_wait_i (BakeryLock_after n k t bu v) = 0
           \<or> b_wait_i (BakeryLock_after n k t bu v) = b_wait_i bu + 1 \<and>
              (bpc bu = B_await_choosing \<and> b_wait_i bu = t
               \<or> bpc bu = B_await_nonzero \<and> as_int v = 0
               \<or> bpc bu = B_await_equal_own \<and> \<not> (lhs bu = as_int v \<and> b_wait_i bu < t))) \<and>
          (bpc (BakeryLock_after n k t bu v) = B_critical \<longrightarrow>
            bpc bu = B_await_choosing \<and> n \<le> b_wait_i bu)) \<and>
         fst (perform (BakeryLock_access_of n t (bthreads b ! t)) c (bviews b ! t) (bmemory b))
           = VInt (max_ticket (bthreads b ! t) + 1) \<and>
         ((pc th = Await_choosing \<longrightarrow>
            access_of n t th = Load (Choosing j) memory_order_seq_cst \<and>
            after n k t th v = (if as_bool v then th else th\<lparr>pc := Await_number\<rparr>)) \<and>
          (pc th = Await_number \<longrightarrow>
            access_of n t th = Load (Number j) memory_order_seq_cst \<and>
            poll n k t th tj mine
              = (if tj \<noteq> 0 \<and> (tj, j) < (mine, t)
                 then th\<lparr>num_j := tj, pc := Await_number\<rparr>
                 else th\<lparr>num_j := tj, wait_j := j + 1, pc := Await_choosing\<rparr>)) \<and>
          (wait_j (after n k t u v) = wait_j u
           \<or> pc u = Chosen \<and> wait_j (after n k t u v) = 0
           \<or> wait_j (after n k t u v) = wait_j u + 1 \<and>
              (pc u = Await_choosing \<and> wait_j u = t
               \<or> pc u = Await_number \<and> as_int v = 0
               \<or> pc u = Await_equal \<and> \<not> (num_j u = as_int v \<and> wait_j u < t))) \<and>
          (pc (after n k t u v) = Enter \<longrightarrow> pc u = Await_choosing \<and> n \<le> wait_j u)) \<and>
         fst (perform (access_of n t (threads s ! t)) c (views s ! t) (memory s))
           = VInt (max_num (threads s ! t) + 1)"
proof -
  have binv: "BakeryLock_inv n k b"
    unfolding assms(6) by (rule BakeryLock_inv_reachable [OF assms(3)])
  have h: "harness_inv n k s" and ti: "ticket_inv n s"
    unfolding assms(9) using invariants_reachable [OF assms(3)] by simp_all
  note bw = BakeryLock_wait [where k = k and v = v and tj = tj and mine = mine and u = bu,
      OF assms(5) assms(1) assms(2)]
  note bo = b_own_ticket_read [where c = c, OF binv assms(4) assms(7)]
  note lw = lock_wait [where k = k and v = v and tj = tj and mine = mine and u = u,
      OF assms(8) assms(1) assms(2)]
  note lo = own_ticket_read [where c = c, OF h ti assms(4) assms(10)]
  show ?thesis by (rule conjI [OF bw conjI [OF bo conjI [OF lw lo]]])
qed

theorem C5_wait_for_each_other_thread_witness:
  "bpc (bthreads (BakeryLock_run 2 1 (replicate 12 (1, None) @ replicate 11 (0, None))
          (BakeryLock_new 2)) ! 0) = B_await_less_own \<and>
   fst (perform
          (BakeryLock_access_of 2 0
             (bthreads (BakeryLock_run 2 1 (replicate 12 (1, None) @ replicate 11 (0, None))
                (BakeryLock_new 2)) ! 0))
          None
          (bviews (BakeryLock_run 2 1 (replicate 12 (1, None) @ replicate 11 (0, None))
             (BakeryLock_new 2)) ! 0)
          (bmemory (BakeryLock_run 2 1 (replicate 12 (1, None) @ replicate 11 (0, None))
             (BakeryLock_new 2))))
     = VInt 2 \<and>
   BakeryLock_after 2 1 0 (bthread_new\<lparr>b_wait_i := 1, bpc := B_await_choosing\<rparr>) (VBool True)
     = bthread_new\<lparr>b_wait_i := 1, bpc := B_await_choosing\<rparr> \<and>
   bpc (BakeryLock_poll 2 1 0 (bthread_new\<lparr>b_wait_i := 1, bpc := B_await_nonzero\<rparr>) 1 2)
     = B_await_nonzero \<and>
   bpc (BakeryLock_poll 2 1 0 (bthread_new\<lparr>b_wait_i := 1, bpc := B_await_nonzero\<rparr>) 3 2)
     = B_await_choosing \<and>
   pc (threads (run 2 1 (replicate 12 (1, None) @ replicate 10 (0, None)) (init 2)) ! 0)
     = Await_less \<and>
   fst (perform
          (access_of 2 0
             (threads (run 2 1 (replicate 12 (1, None) @ replicate 10 (0, None)) (init 2)) ! 0))
          None (views (run 2 1 (replicate 12 (1, None) @ replicate 10 (0, None)) (init 2)) ! 0)
          (memory (run 2 1 (replicate 12 (1, None) @ replicate 10 (0, None)) (init 2))))
     = VInt 2 \<and>
   after 2 1 0 (thread_new\<lparr>wait_j := 1, pc := Await_choosing\<rparr>) (VBool True)
     = thread_new\<lparr>wait_j := 1, pc := Await_choosing\<rparr> \<and>
   after 2 1 0 (thread_new\<lparr>wait_j := 1, pc := Await_choosing\<rparr>) (VBool False)
     = thread_new\<lparr>wait_j := 1, pc := Await_number\<rparr> \<and>
   poll 2 1 0 (thread_new\<lparr>wait_j := 1, pc := Await_number\<rparr>) 1 2
     = thread_new\<lparr>wait_j := 1, num_j := 1, pc := Await_number\<rparr> \<and>
   poll 2 1 0 (thread_new\<lparr>wait_j := 1, pc := Await_number\<rparr>) 3 2
     = thread_new\<lparr>wait_j := 2, num_j := 3, pc := Await_choosing\<rparr>"
proof -
  define b where
    "b = BakeryLock_run 2 1 (replicate 12 (1, None) @ replicate 11 (0, None)) (BakeryLock_new 2)"
  define s where "s = run 2 1 (replicate 12 (1, None) @ replicate 10 (0, None)) (init 2)"
  let ?bc = "bthread_new\<lparr>b_wait_i := 1, bpc := B_await_choosing\<rparr>"
  let ?bp = "bthread_new\<lparr>b_wait_i := 1, bpc := B_await_nonzero\<rparr>"
  let ?c = "thread_new\<lparr>wait_j := 1, pc := Await_choosing\<rparr>"
  let ?p = "thread_new\<lparr>wait_j := 1, pc := Await_number\<rparr>"
  have nk: "int 2 * int 1 \<le> INT_MAX" by (simp add: INT_MAX_def)
  have j: "(1::nat) < 2" "(1::nat) \<noteq> 0" and t: "(0::nat) < 2" by simp_all
  have wbc: "b_wait_i ?bc = 1" and wbp: "b_wait_i ?bp = 1" by simp_all
  have wc: "wait_j ?c = 1" and wp: "wait_j ?p = 1" by simp_all
  have pbc: "bpc ?bc = B_await_choosing" and pbp: "bpc ?bp = B_await_nonzero" by simp_all
  have pcc: "pc ?c = Await_choosing" and pcp: "pc ?p = Await_number" by simp_all
  have bq: "bpc (bthreads b ! 0) = B_await_less_own" unfolding b_def by code_simp
  then have bq': "bpc (bthreads b ! 0) = B_await_less_own
                  \<or> bpc (bthreads b ! 0) = B_await_equal_own" ..
  have bm: "max_ticket (bthreads b ! 0) = 1" unfolding b_def by code_simp
  have q: "pc (threads s ! 0) = Await_less" unfolding s_def by code_simp
  then have q': "pc (threads s ! 0) = Await_less \<or> pc (threads s ! 0) = Await_equal" ..
  have m: "max_num (threads s ! 0) = 1" unfolding s_def by code_simp
  note inst = C5_wait_for_each_other_thread [where n = 2 and k = 1 and t = 0 and j = 1
      and c = None and s = s and b = b, OF j nk t _ b_def bq' _ s_def q']
  have e1: "fst (perform (BakeryLock_access_of 2 0 (bthreads b ! 0)) None (bviews b ! 0)
               (bmemory b)) = VInt 2"
    using inst [where bth = ?bc and th = ?c, OF wbc wc, THEN conjunct2, THEN conjunct1] bm
    by simp
  have e2: "fst (perform (access_of 2 0 (threads s ! 0)) None (views s ! 0) (memory s)) = VInt 2"
    using inst [where bth = ?bc and th = ?c, OF wbc wc, THEN conjunct2, THEN conjunct2,
        THEN conjunct2] m
    by simp
  have a0: "BakeryLock_after 2 1 0 ?bc (VBool True) = ?bc"
    using inst [where bth = ?bc and th = ?c and v = "VBool True", OF wbc wc,
        THEN conjunct1, THEN conjunct1] pbc
    by simp
  have b0: "bpc (BakeryLock_poll 2 1 0 ?bp 1 2) = B_await_nonzero"
    using inst [where bth = ?bp and th = ?p and tj = 1 and mine = 2, OF wbp wp,
        THEN conjunct1, THEN conjunct2, THEN conjunct1] pbp
    by simp
  have b0': "bpc (BakeryLock_poll 2 1 0 ?bp 3 2) = B_await_choosing"
    using inst [where bth = ?bp and th = ?p and tj = 3 and mine = 2, OF wbp wp,
        THEN conjunct1, THEN conjunct2, THEN conjunct1] pbp
    by simp
  have a1: "after 2 1 0 ?c (VBool True) = ?c"
    using inst [where bth = ?bc and th = ?c and v = "VBool True", OF wbc wc,
        THEN conjunct2, THEN conjunct2, THEN conjunct1, THEN conjunct1] pcc
    by simp
  have a2: "after 2 1 0 ?c (VBool False) = thread_new\<lparr>wait_j := 1, pc := Await_number\<rparr>"
    using inst [where bth = ?bc and th = ?c and v = "VBool False", OF wbc wc,
        THEN conjunct2, THEN conjunct2, THEN conjunct1, THEN conjunct1] pcc
    by simp
  have b1: "poll 2 1 0 ?p 1 2 = thread_new\<lparr>wait_j := 1, num_j := 1, pc := Await_number\<rparr>"
    using inst [where bth = ?bp and th = ?p and tj = 1 and mine = 2, OF wbp wp,
        THEN conjunct2, THEN conjunct2, THEN conjunct1, THEN conjunct2, THEN conjunct1] pcp
    by (simp add: thread_new_def)
  have b2: "poll 2 1 0 ?p 3 2 = thread_new\<lparr>wait_j := 2, num_j := 3, pc := Await_choosing\<rparr>"
    using inst [where bth = ?bp and th = ?p and tj = 3 and mine = 2, OF wbp wp,
        THEN conjunct2, THEN conjunct2, THEN conjunct1, THEN conjunct2, THEN conjunct1] pcp
    by (simp add: thread_new_def)
  from bq e1 a0 b0 b0' q e2 a1 a2 b1 b2 show ?thesis unfolding b_def s_def by blast
qed

end
